theory Spec2Isabelle
  imports Main "HOL-Library.Sublist"
begin

section \<open>Paths\<close>

text \<open>
  The program handles paths as Python strings and takes them apart with \<^verbatim>\<open>os.path\<close>.
  The functions below follow \<^verbatim>\<open>posixpath\<close>, where \<^verbatim>\<open>os.sep\<close> is the slash.
  A string is a list of characters.
\<close>

definition sep :: char where
  "sep = CHR ''/''"

text \<open>
  \<^verbatim>\<open>os.path.join(a, b)\<close>: an absolute \<^verbatim>\<open>b\<close> replaces \<^verbatim>\<open>a\<close>; otherwise the
  two are put together with one separator, which is left out when \<^verbatim>\<open>a\<close> is empty or
  already ends with one.
\<close>

definition path_join :: "string \<Rightarrow> string \<Rightarrow> string" where
  "path_join a b =
     (if take 1 b = [sep] then b
      else if a = [] \<or> last a = sep then a @ b
      else a @ sep # b)"

text \<open>\<^verbatim>\<open>s.rstrip(os.sep)\<close>.\<close>

definition rstrip_sep :: "string \<Rightarrow> string" where
  "rstrip_sep s = rev (dropWhile (\<lambda>c. c = sep) (rev s))"

text \<open>
  \<^verbatim>\<open>os.path.dirname(p)\<close>: the head is \<^verbatim>\<open>p\<close> up to and including its last
  separator; trailing separators are stripped from the head unless it consists of
  separators only.
\<close>

definition dirname :: "string \<Rightarrow> string" where
  "dirname p =
     (let head = rev (dropWhile (\<lambda>c. c \<noteq> sep) (rev p))
      in if head \<noteq> [] \<and> \<not> list_all (\<lambda>c. c = sep) head then rstrip_sep head else head)"

text \<open>\<^verbatim>\<open>p.count(os.sep)\<close>, the key the size rollup sorts by.\<close>

definition depth :: "string \<Rightarrow> nat" where
  "depth p = count_list p sep"

section \<open>The directory tree and \<^verbatim>\<open>os.walk\<close>\<close>

text \<open>
  A directory holds its files, each with the result of \<^verbatim>\<open>os.path.getsize\<close> on it
  (\<open>None\<close> when that call raises), and its subdirectories in listing order.
  \<open>Opaque\<close> is an entry that \<^verbatim>\<open>os.walk\<close> lists among the directory names of its
  parent but yields nothing for: a symbolic link to a directory (links are not
  followed) or a directory that cannot be listed (the error is ignored).
\<close>

datatype node = Dir "(string \<times> nat option) list" "(string \<times> node) list" | Opaque

text \<open>
  \<^verbatim>\<open>os.walk(top)\<close>, top-down: the triple of a directory comes before the triples of
  its subdirectories, which follow in listing order. The third component keeps the size
  of each file beside its name.
\<close>

fun walk :: "string \<Rightarrow> node \<Rightarrow> (string \<times> string list \<times> (string \<times> nat option) list) list" where
  "walk dirpath Opaque = []"
| "walk dirpath (Dir fs ds) =
     (dirpath, map fst ds, fs) #
     concat (map (\<lambda>e. walk (path_join dirpath (fst e)) (snd e)) ds)"

section \<open>Cooperative cancellation\<close>

text \<open>
  Each worker polls its flag \<^verbatim>\<open>_running\<close>, which \<^verbatim>\<open>stop()\<close> clears from another
  thread and nothing sets again. A run is therefore determined by how many reads of the
  flag still see it set: \<open>None\<close> when \<^verbatim>\<open>stop()\<close> is never called, \<open>Some n\<close> when the
  first \<open>n\<close> reads see it set and every later one sees it cleared.
\<close>

type_synonym flag = "nat option"

fun running :: "flag \<Rightarrow> bool" where
  "running None = True"
| "running (Some 0) = False"
| "running (Some (Suc n)) = True"

fun after_read :: "flag \<Rightarrow> flag" where
  "after_read None = None"
| "after_read (Some n) = Some (n - 1)"

section \<open>SearchWorker\<close>

text \<open>
  The search calls two methods of Python's \<^verbatim>\<open>str\<close>, \<^verbatim>\<open>lower()\<close> and
  \<^verbatim>\<open>strip()\<close>. Both belong to the interpreter: they follow the tables of Unicode,
  \<^verbatim>\<open>lower()\<close> maps a capital sigma by its context, and \<^verbatim>\<open>strip()\<close> removes every
  white space of Unicode. The program is modelled over the two methods whatever they do:
  they are the fields of a record that the functions below take as their first argument.
\<close>

record pystr =
  str_lower :: "string \<Rightarrow> string"
  str_strip :: "string \<Rightarrow> string"

text \<open>\<^verbatim>\<open>needle in s\<close>: the needle occurs at some position of \<open>s\<close>.\<close>

fun contains :: "string \<Rightarrow> string \<Rightarrow> bool" where
  "contains needle [] = (needle = [])"
| "contains needle (c # cs) =
     (take (length needle) (c # cs) = needle \<or> contains needle cs)"

datatype search_event = Found string | SearchProgress nat string | SearchDone "string list"

record search_state =
  results :: "string list"
  emitted :: "search_event list"
  count :: nat
  flag :: flag

text \<open>
  The inner loop of \<^verbatim>\<open>SearchWorker.run\<close> over \<^verbatim>\<open>dirs + files\<close> of one directory
  \<open>r\<close>. A cleared flag leaves the loop; otherwise the entry is counted, a match is
  appended to \<^verbatim>\<open>self.results\<close> and emitted, and every 500th entry emits progress.
\<close>

fun search_names ::
  "pystr \<Rightarrow> string \<Rightarrow> string \<Rightarrow> string list \<Rightarrow> search_state \<Rightarrow> search_state" where
  "search_names py needle r [] st = st"
| "search_names py needle r (name # names) st =
     (if \<not> running (flag st) then st
      else
        let st1 = st\<lparr>flag := after_read (flag st), count := count st + 1\<rparr>;
            st2 = (if contains needle (str_lower py name)
                   then st1\<lparr>results := results st1 @ [path_join r name],
                            emitted := emitted st1 @ [Found (path_join r name)]\<rparr>
                   else st1);
            st3 = (if count st2 mod 500 = 0
                   then st2\<lparr>emitted := emitted st2 @ [SearchProgress (count st2) r]\<rparr>
                   else st2)
        in search_names py needle r names st3)"

text \<open>The outer loop over the triples of \<^verbatim>\<open>os.walk\<close>, with its own read of the flag.\<close>

fun search_walk ::
  "pystr \<Rightarrow> string \<Rightarrow> (string \<times> string list \<times> (string \<times> nat option) list) list \<Rightarrow>
   search_state \<Rightarrow> search_state" where
  "search_walk py needle [] st = st"
| "search_walk py needle ((r, dirs, files) # rest) st =
     (if \<not> running (flag st) then st
      else search_walk py needle rest
             (search_names py needle r (dirs @ map fst files)
                (st\<lparr>flag := after_read (flag st)\<rparr>)))"

text \<open>
  \<^verbatim>\<open>SearchWorker(root_path, needle)\<close> followed by \<^verbatim>\<open>run()\<close>: the constructor lowers
  the needle and starts with no results; \<^verbatim>\<open>run\<close> ends by emitting \<^verbatim>\<open>done\<close> with
  \<^verbatim>\<open>self.results\<close>. The value is the sequence of signals emitted.
\<close>

definition search_init :: "flag \<Rightarrow> search_state" where
  "search_init k = \<lparr>results = [], emitted = [], count = 0, flag = k\<rparr>"

definition search_final :: "pystr \<Rightarrow> string \<Rightarrow> node \<Rightarrow> string \<Rightarrow> flag \<Rightarrow> search_state" where
  "search_final py root_path tree needle k =
     search_walk py (str_lower py needle) (walk root_path tree) (search_init k)"

definition SearchWorker_run ::
  "pystr \<Rightarrow> string \<Rightarrow> node \<Rightarrow> string \<Rightarrow> flag \<Rightarrow> search_event list" where
  "SearchWorker_run py root_path tree needle k =
     (let st = search_final py root_path tree needle k
      in emitted st @ [SearchDone (results st)])"

text \<open>The paths carried by the \<^verbatim>\<open>found\<close> signals of a sequence, in order.\<close>

fun found_paths :: "search_event list \<Rightarrow> string list" where
  "found_paths [] = []"
| "found_paths (Found p # es) = p # found_paths es"
| "found_paths (e # es) = found_paths es"

fun done_lists :: "search_event list \<Rightarrow> string list list" where
  "done_lists [] = []"
| "done_lists (SearchDone rs # es) = rs # done_lists es"
| "done_lists (e # es) = done_lists es"

text \<open>
  The entries \<^verbatim>\<open>SearchWorker.run\<close> visits, in order: for each triple of the walk, the
  directory names and then the file names, each with the directory it was found in.
\<close>

definition entries ::
  "(string \<times> string list \<times> (string \<times> nat option) list) list \<Rightarrow> (string \<times> string) list" where
  "entries triples =
     concat (map (\<lambda>t. map (Pair (fst t)) (fst (snd t) @ map fst (snd (snd t)))) triples)"

text \<open>
  The matching rule in the words of the specification: the needle is a contained
  substring of the name under case-insensitive comparison, that is, some stretch of the
  name agrees with the needle character by character once case is ignored. Two
  characters agree once case is ignored when they are the same, or when one is a capital
  letter and the other the small letter of it; the letters told apart here are those of
  ASCII, where the small letter lies 32 above its capital.
\<close>

definition is_capital :: "char \<Rightarrow> bool" where
  "is_capital c = (65 \<le> (of_char c :: nat) \<and> (of_char c :: nat) \<le> 90)"

definition ci_eq :: "char \<Rightarrow> char \<Rightarrow> bool" where
  "ci_eq a b =
     (a = b \<or> (is_capital a \<and> (of_char b :: nat) = of_char a + 32)
            \<or> (is_capital b \<and> (of_char a :: nat) = of_char b + 32))"

definition ci_substring :: "string \<Rightarrow> string \<Rightarrow> bool" where
  "ci_substring needle name =
     (\<exists>pre mid post. name = pre @ mid @ post \<and> list_all2 ci_eq needle mid)"

text \<open>
  What \<^verbatim>\<open>str.lower()\<close> does to a text of ASCII characters: the capitals are mapped to
  the small letters, every other character is kept.
\<close>

definition ascii_lower_char :: "char \<Rightarrow> char" where
  "ascii_lower_char c = (if is_capital c then char_of ((of_char c :: nat) + 32) else c)"

definition ascii_lower :: "string \<Rightarrow> string" where
  "ascii_lower s = map ascii_lower_char s"

text \<open>
  The paths a search that is never cancelled reports for a list of entries: those whose
  lowered name contains the (already lowered) needle, joined to their directory, in order.
\<close>

definition matching :: "pystr \<Rightarrow> string \<Rightarrow> (string \<times> string) list \<Rightarrow> string list" where
  "matching py needle es =
     map (\<lambda>e. path_join (fst e) (snd e))
       (filter (\<lambda>e. contains needle (str_lower py (snd e))) es)"

section \<open>Search navigation in MainWindow\<close>

text \<open>
  The operations that can raise in \<^verbatim>\<open>find_next\<close> and \<^verbatim>\<open>find_prev\<close> are the
  remainder and the list subscript; both are modelled with their exceptions.
\<close>

datatype py_error = ZeroDivisionError | IndexError

definition py_mod :: "int \<Rightarrow> int \<Rightarrow> py_error + int" where
  "py_mod a b = (if b = 0 then Inl ZeroDivisionError else Inr (a mod b))"

definition py_subscript :: "'a list \<Rightarrow> int \<Rightarrow> py_error + 'a" where
  "py_subscript xs i =
     (if 0 \<le> i \<and> i < int (length xs) then Inr (xs ! nat i)
      else if - int (length xs) \<le> i \<and> i < 0 then Inr (xs ! nat (int (length xs) + i))
      else Inl IndexError)"

text \<open>
  The part of the window the search uses: the text of the search box, the attribute
  \<^verbatim>\<open>matches\<close> (\<open>None\<close> while it has not been assigned; a match is a model index,
  named here by its path) and the cursor \<^verbatim>\<open>match_pos\<close>.
\<close>

record window =
  search_text :: string
  matches :: "string list option"
  match_pos :: int

text \<open>What the two operations read from the rest of the program and from the file system.\<close>

record env =
  env_root_valid :: bool
  env_root_path :: string
  env_root_is_dir :: bool
  env_search_running :: bool
  env_tree :: node
  env_index_valid :: "string \<Rightarrow> bool"

datatype action =
    Navigate string
  | ShowStatus int nat
  | WarnNoRoot
  | StopSearch
  | StartSearch string string

definition the_matches :: "window \<Rightarrow> string list" where
  "the_matches w = (case matches w of None \<Rightarrow> [] | Some ms \<Rightarrow> ms)"

text \<open>\<^verbatim>\<open>hasattr(self, "matches") and self.matches\<close>.\<close>

definition has_matches :: "window \<Rightarrow> bool" where
  "has_matches w = (the_matches w \<noteq> [])"

text \<open>
  The cursor step both operations share: the new position is the remainder by the number
  of matches, and the match at that position is shown.
\<close>

definition move_cursor :: "int \<Rightarrow> window \<Rightarrow> py_error + (window \<times> string)" where
  "move_cursor delta w =
     (case py_mod (match_pos w + delta) (int (length (the_matches w))) of
        Inl e \<Rightarrow> Inl e
      | Inr pos \<Rightarrow>
          (case py_subscript (the_matches w) pos of
             Inl e \<Rightarrow> Inl e
           | Inr idx \<Rightarrow> Inr (w\<lparr>match_pos := pos\<rparr>, idx)))"

text \<open>
  \<^verbatim>\<open>MainWindow.find_next\<close>. An empty stripped needle returns at once. With matches at
  hand the cursor advances; otherwise a new threaded search is started on the root, after
  the checks of the root and after stopping a search that is still running.
\<close>

definition find_next :: "pystr \<Rightarrow> env \<Rightarrow> window \<Rightarrow> py_error + (window \<times> action list)" where
  "find_next py env w =
     (let needle = str_strip py (search_text w) in
      if needle = [] then Inr (w, [])
      else if has_matches w then
        (case move_cursor 1 w of
           Inl e \<Rightarrow> Inl e
         | Inr (w', idx) \<Rightarrow>
             Inr (w', [Navigate idx, ShowStatus (match_pos w' + 1) (length (the_matches w'))]))
      else if \<not> env_root_valid env then Inr (w, [WarnNoRoot])
      else if \<not> env_root_is_dir env then Inr (w, [])
      else Inr (w\<lparr>matches := Some [], match_pos := - 1\<rparr>,
                (if env_search_running env then [StopSearch] else []) @
                [StartSearch (env_root_path env) needle]))"

text \<open>
  \<^verbatim>\<open>MainWindow.find_all_indexes\<close>: the synchronous search of \<^verbatim>\<open>find_prev\<close>, which
  keeps the matching paths whose model index is valid.
\<close>

definition find_all_indexes :: "pystr \<Rightarrow> env \<Rightarrow> string \<Rightarrow> string list" where
  "find_all_indexes py env needle =
     (if \<not> env_root_valid env then []
      else filter (env_index_valid env)
             (matching py (str_lower py needle)
                (entries (walk (env_root_path env) (env_tree env)))))"

text \<open>\<^verbatim>\<open>MainWindow.find_prev\<close>.\<close>

definition find_prev :: "pystr \<Rightarrow> env \<Rightarrow> window \<Rightarrow> py_error + (window \<times> action list)" where
  "find_prev py env w =
     (let needle = str_strip py (search_text w) in
      if needle = [] then Inr (w, [])
      else
        let w1 = (if \<not> has_matches w
                  then w\<lparr>matches := Some (find_all_indexes py env needle), match_pos := 0\<rparr>
                  else w)
        in if \<not> has_matches w1 then Inr (w1, [])
           else (case move_cursor (- 1) w1 of
                   Inl e \<Rightarrow> Inl e
                 | Inr (w', idx) \<Rightarrow> Inr (w', [Navigate idx])))"

text \<open>\<^verbatim>\<open>find_next\<close> requested \<open>n\<close> times in a row, stopping at the first exception.\<close>

fun next_times :: "nat \<Rightarrow> pystr \<Rightarrow> env \<Rightarrow> window \<Rightarrow> py_error + window" where
  "next_times 0 py env w = Inr w"
| "next_times (Suc n) py env w =
     (case find_next py env w of Inl e \<Rightarrow> Inl e | Inr (w', acts) \<Rightarrow> next_times n py env w')"

section \<open>The expansion drain\<close>

text \<open>
  What \<^verbatim>\<open>self.model.index(folder)\<close> gives for a queued path at one tick: a valid index,
  an invalid one (the node is not loaded yet), or an exception, which the loop swallows.
\<close>

datatype lookup = Valid | NotReady | Raised

record expander =
  expanding :: bool
  expand_queue :: "string list"
  expand_attempts :: "string \<rightharpoonup> nat"

text \<open>
  The local state of one call of \<^verbatim>\<open>_process_expand_queue_step\<close>: the counter
  \<^verbatim>\<open>processed\<close>, the list \<^verbatim>\<open>requeue\<close>, the retry counters, and two records of what
  the call did: the paths handed to \<^verbatim>\<open>tree.expand\<close> and the paths looked up.
\<close>

record drain_locals =
  processed :: nat
  requeue :: "string list"
  attempts :: "string \<rightharpoonup> nat"
  expanded :: "string list"
  tried :: "string list"

text \<open>
  The body of the loop for one path. \<^verbatim>\<open>_expand_attempts\<close> is a
  \<^verbatim>\<open>defaultdict(int)\<close>, so a missing counter reads as 0.
\<close>

definition process_item :: "(string \<Rightarrow> lookup) \<Rightarrow> string \<Rightarrow> drain_locals \<Rightarrow> drain_locals" where
  "process_item look folder l =
     (let l1 = l\<lparr>processed := processed l + 1, tried := tried l @ [folder]\<rparr> in
      case look folder of
        Valid \<Rightarrow> l1\<lparr>expanded := expanded l1 @ [folder], attempts := (attempts l1)(folder := None)\<rparr>
      | NotReady \<Rightarrow>
          (let n = (case attempts l1 folder of None \<Rightarrow> 0 | Some v \<Rightarrow> v) + 1;
               l2 = l1\<lparr>attempts := (attempts l1)(folder \<mapsto> n)\<rparr>
           in if n \<le> 8 then l2\<lparr>requeue := requeue l2 @ [folder]\<rparr> else l2)
      | Raised \<Rightarrow> l1)"

text \<open>
  \<^verbatim>\<open>while self._expand_queue and processed < MAX_PER_TICK\<close>, with
  \<^verbatim>\<open>MAX_PER_TICK = 40\<close>: the value is what is left of the queue and the locals.
\<close>

fun drain :: "(string \<Rightarrow> lookup) \<Rightarrow> string list \<Rightarrow> drain_locals \<Rightarrow> string list \<times> drain_locals" where
  "drain look [] l = ([], l)"
| "drain look (folder # q) l =
     (if processed l < 40 then drain look q (process_item look folder l) else (folder # q, l))"

datatype outcome = Stopped | Rescheduled | Finalized

text \<open>What one tick reads from outside: the lookups of this tick, the paths that
  \<^verbatim>\<open>on_expand_batch_received\<close> appends while the tick processes pending events, and
  \<^verbatim>\<open>self.expand_thread\<close> with its \<^verbatim>\<open>isRunning()\<close> (\<open>None\<close> when there is no thread).\<close>

record tick_input =
  look :: "string \<Rightarrow> lookup"
  arrived :: "string list"
  thread_running :: "bool option"

record tick_result =
  new_state :: expander
  expanded_now :: "string list"
  tried_now :: "string list"
  verdict :: outcome

text \<open>
  \<^verbatim>\<open>MainWindow._process_expand_queue_step\<close>. When the expansion has been stopped the
  call returns at once. Otherwise it drains up to 40 paths, puts the paths to retry at the
  tail, and then either schedules the next tick or finalizes, which clears
  \<^verbatim>\<open>_expanding\<close>.
\<close>

definition process_expand_queue_step :: "tick_input \<Rightarrow> expander \<Rightarrow> tick_result" where
  "process_expand_queue_step inp st =
     (if \<not> expanding st
      then \<lparr>new_state = st, expanded_now = [], tried_now = [], verdict = Stopped\<rparr>
      else
        let (rest, l) = drain (look inp) (expand_queue st)
                          \<lparr>processed = 0, requeue = [], attempts = expand_attempts st,
                           expanded = [], tried = []\<rparr>;
            q = rest @ requeue l @ arrived inp;
            st1 = st\<lparr>expand_queue := q, expand_attempts := attempts l\<rparr>
        in if q \<noteq> [] \<or> thread_running inp = Some True
           then \<lparr>new_state = st1, expanded_now = expanded l, tried_now = tried l,
                 verdict = Rescheduled\<rparr>
           else \<lparr>new_state = st1\<lparr>expanding := False\<rparr>, expanded_now = expanded l,
                 tried_now = tried l, verdict = Finalized\<rparr>)"


section \<open>FolderSizeWorker\<close>

datatype size_event = FolderDone string nat | SizeProgress nat nat string | SizeDone

text \<open>
  The loop over the files of one directory in the first phase. A cleared flag makes
  \<^verbatim>\<open>run\<close> return (\<open>None\<close>); a file whose size cannot be read adds nothing.
\<close>

fun sum_files :: "(string \<times> nat option) list \<Rightarrow> nat \<Rightarrow> flag \<Rightarrow> (nat \<times> flag) option" where
  "sum_files [] s k = Some (s, k)"
| "sum_files (f # fs) s k =
     (if \<not> running k then None
      else sum_files fs (s + (case snd f of None \<Rightarrow> 0 | Some n \<Rightarrow> n)) (after_read k))"

text \<open>
  The first phase: the walk that fills \<^verbatim>\<open>folders\<close> and \<^verbatim>\<open>file_sizes_per_folder\<close>.
  Both \<^verbatim>\<open>return\<close> statements of this phase leave \<^verbatim>\<open>run\<close> outside the
  \<^verbatim>\<open>try ... finally\<close> that emits \<^verbatim>\<open>done\<close>.
\<close>

fun size_walk ::
  "(string \<times> string list \<times> (string \<times> nat option) list) list \<Rightarrow>
   string list \<Rightarrow> (string \<rightharpoonup> nat) \<Rightarrow> flag \<Rightarrow> (string list \<times> (string \<rightharpoonup> nat) \<times> flag) option" where
  "size_walk [] folders sizes k = Some (folders, sizes, k)"
| "size_walk (t # rest) folders sizes k =
     (if \<not> running k then None
      else (case sum_files (snd (snd t)) 0 (after_read k) of
              None \<Rightarrow> None
            | Some (s, k') \<Rightarrow> size_walk rest (folders @ [fst t]) (sizes(fst t \<mapsto> s)) k'))"

text \<open>
  \<^verbatim>\<open>sorted(xs, key=f, reverse=True)\<close>: a stable sort in descending order of the key;
  elements with equal keys keep their order.
\<close>

definition sorted_reverse :: "('a \<Rightarrow> nat) \<Rightarrow> 'a list \<Rightarrow> 'a list" where
  "sorted_reverse f xs = rev (sort_key f (rev xs))"

text \<open>\<^verbatim>\<open>totals.get(d, 0)\<close>.\<close>

definition get0 :: "(string \<rightharpoonup> nat) \<Rightarrow> string \<Rightarrow> nat" where
  "get0 m d = (case m d of None \<Rightarrow> 0 | Some v \<Rightarrow> v)"

text \<open>\<^verbatim>\<open>if parent in totals: totals[parent] += totals.get(d, 0)\<close> for one directory.\<close>

definition add_to_parent :: "(string \<rightharpoonup> nat) \<Rightarrow> string \<Rightarrow> (string \<rightharpoonup> nat)" where
  "add_to_parent totals d =
     (case totals (dirname d) of
        None \<Rightarrow> totals
      | Some v \<Rightarrow> totals(dirname d \<mapsto> v + get0 totals d))"

text \<open>
  The second phase, the rollup over the sorted directories. A cleared flag returns from
  inside the \<^verbatim>\<open>try ... finally\<close>, so \<^verbatim>\<open>done\<close> is still emitted by the caller below.
\<close>

fun rollup :: "nat \<Rightarrow> nat \<Rightarrow> string list \<Rightarrow> (string \<rightharpoonup> nat) \<Rightarrow> flag \<Rightarrow> size_event list" where
  "rollup i n [] totals k = []"
| "rollup i n (d # ds) totals k =
     (if \<not> running k then []
      else FolderDone d (get0 (add_to_parent totals d) d) # SizeProgress (i + 1) n d #
           rollup (i + 1) n ds (add_to_parent totals d) (after_read k))"

text \<open>\<^verbatim>\<open>FolderSizeWorker.run\<close>: the signals emitted, in order.\<close>

definition FolderSizeWorker_run :: "string \<Rightarrow> node \<Rightarrow> flag \<Rightarrow> size_event list" where
  "FolderSizeWorker_run root tree k =
     (case size_walk (walk root tree) [] Map.empty k of
        None \<Rightarrow> []
      | Some (folders, sizes, k') \<Rightarrow>
          rollup 0 (length folders) (sorted_reverse depth folders) sizes k' @ [SizeDone])"

text \<open>
  The table of the window: \<^verbatim>\<open>on_folder_size_done\<close> stores the size of each
  \<^verbatim>\<open>folder_done\<close> signal under its path; the table is cleared when a scan starts.
\<close>

fun on_events :: "size_event list \<Rightarrow> (string \<rightharpoonup> nat) \<Rightarrow> (string \<rightharpoonup> nat)" where
  "on_events [] table = table"
| "on_events (FolderDone d n # es) table = on_events es (table(d \<mapsto> n))"
| "on_events (e # es) table = on_events es table"

definition size_table :: "string \<Rightarrow> node \<Rightarrow> flag \<Rightarrow> (string \<rightharpoonup> nat)" where
  "size_table root tree k = on_events (FolderSizeWorker_run root tree k) Map.empty"

text \<open>The directories in the order their \<^verbatim>\<open>folder_done\<close> signals are emitted.\<close>

fun finalized :: "size_event list \<Rightarrow> string list" where
  "finalized [] = []"
| "finalized (FolderDone d n # es) = d # finalized es"
| "finalized (e # es) = finalized es"

fun done_count :: "size_event list \<Rightarrow> nat" where
  "done_count [] = 0"
| "done_count (SizeDone # es) = Suc (done_count es)"
| "done_count (e # es) = done_count es"

text \<open>The bytes of all files under a directory whose size can be read.\<close>

fun total_size :: "node \<Rightarrow> nat" where
  "total_size Opaque = 0"
| "total_size (Dir fs ds) =
     sum_list (map (\<lambda>f. case snd f of None \<Rightarrow> 0 | Some n \<Rightarrow> n) fs) +
     sum_list (map (\<lambda>e. total_size (snd e)) ds)"

text \<open>
  \<^verbatim>\<open>MainWindow._on_search_found\<close>, the slot of the \<^verbatim>\<open>found\<close> signal: a path with a
  valid index is appended to the matches; the cursor is left as it is.
\<close>

definition on_search_found :: "env \<Rightarrow> window \<Rightarrow> string \<Rightarrow> window" where
  "on_search_found env w path =
     (case matches w of
        None \<Rightarrow> w
      | Some ms \<Rightarrow> if env_index_valid env path then w\<lparr>matches := Some (ms @ [path])\<rparr> else w)"

text \<open>
  The two methods for the examples. The texts of the examples are written as the bytes
  of their UTF-8 encoding, one byte for an ASCII character and two for a Greek letter;
  one text is contained in another exactly when its encoding is contained in the
  encoding of the other.

  The white space of \<^verbatim>\<open>str.strip()\<close>, encoded: the ASCII characters 9 to 13 and 28
  to 32, then U+0085, U+00A0, U+1680, U+2000 to U+200A, U+2028, U+2029, U+202F, U+205F and
  U+3000.
\<close>

definition white_space :: "string list" where
  "white_space =
     map (\<lambda>n. [char_of n]) [9, 10, 11, 12, 13, 28, 29, 30, 31, 32 :: nat] @
     [[CHR 0xC2, CHR 0x85], [CHR 0xC2, CHR 0xA0], [CHR 0xE1, CHR 0x9A, CHR 0x80]] @
     map (\<lambda>n. [CHR 0xE2, CHR 0x80, char_of n]) [0x80 ..< 0x8B :: nat] @
     [[CHR 0xE2, CHR 0x80, CHR 0xA8], [CHR 0xE2, CHR 0x80, CHR 0xA9],
      [CHR 0xE2, CHR 0x80, CHR 0xAF], [CHR 0xE2, CHR 0x81, CHR 0x9F],
      [CHR 0xE3, CHR 0x80, CHR 0x80]]"

text \<open>
  White space is taken from the front of a text one character at a time; every character
  taken shortens the text, so the length of the text bounds the number of rounds.
\<close>

fun drop_white :: "nat \<Rightarrow> string list \<Rightarrow> string \<Rightarrow> string" where
  "drop_white 0 ws s = s"
| "drop_white (Suc n) ws s =
     (case find (\<lambda>t. take (length t) s = t) ws of
        None \<Rightarrow> s
      | Some t \<Rightarrow> drop_white n ws (drop (length t) s))"

definition utf8_strip :: "string \<Rightarrow> string" where
  "utf8_strip s =
     (let s1 = drop_white (length s) white_space s
      in rev (drop_white (length s1) (map rev white_space) (rev s1)))"

text \<open>
  A search text of two Greek letters, capital alpha and capital sigma (U+0391, U+03A3),
  and a file name that begins with it: capital alpha, capital sigma, capital alpha and
  the ending \<^verbatim>\<open>.txt\<close>. Then what \<^verbatim>\<open>str.lower()\<close> makes of the two: the sigma at
  the end of the search text becomes the final small sigma U+03C2, the sigma inside the
  name the small sigma U+03C3, and alpha the small alpha U+03B1.
\<close>

definition sigma_needle :: string where
  "sigma_needle = [CHR 0xCE, CHR 0x91, CHR 0xCE, CHR 0xA3]"

definition sigma_name :: string where
  "sigma_name = [CHR 0xCE, CHR 0x91, CHR 0xCE, CHR 0xA3, CHR 0xCE, CHR 0x91] @ ''.txt''"

definition sigma_needle_lowered :: string where
  "sigma_needle_lowered = [CHR 0xCE, CHR 0xB1, CHR 0xCF, CHR 0x82]"

definition sigma_name_lowered :: string where
  "sigma_name_lowered = [CHR 0xCE, CHR 0xB1, CHR 0xCF, CHR 0x83, CHR 0xCE, CHR 0xB1] @ ''.txt''"

text \<open>
  A function that agrees with \<^verbatim>\<open>str.lower()\<close> on the two Greek texts and on every
  text of ASCII characters, which are the texts of the examples.
\<close>

definition sample_lower :: "string \<Rightarrow> string" where
  "sample_lower s =
     (if s = sigma_needle then sigma_needle_lowered
      else if s = sigma_name then sigma_name_lowered
      else ascii_lower s)"

definition sample_py :: pystr where
  "sample_py = \<lparr>str_lower = sample_lower, str_strip = utf8_strip\<rparr>"

text \<open>An environment for the examples: a valid root \<^verbatim>\<open>/r\<close> with one file.\<close>

definition sample_env :: env where
  "sample_env = \<lparr>env_root_valid = True, env_root_path = ''/r'', env_root_is_dir = True,
     env_search_running = False, env_tree = Dir [(''app.log'', Some 1)] [],
     env_index_valid = (\<lambda>p. True)\<rparr>"

text \<open>Two trees for the examples: one directory with a file of 100 bytes, and the
  scenario of the specification with a second directory and a file of 50 bytes below it.\<close>

definition root_tree :: node where
  "root_tree = Dir [] [(''a'', Dir [(''f1'', Some 100)] [])]"

definition scenario_tree :: node where
  "scenario_tree = Dir [] [(''a'', Dir [(''f1'', Some 100)] [(''b'', Dir [(''f2'', Some 50)] [])])]"

section \<open>Notions for the proofs about the expansion drain\<close>


text \<open>The position of the first occurrence of a path in the queue.\<close>

definition pos :: "string \<Rightarrow> string list \<Rightarrow> nat" where
  "pos p q = length (takeWhile (\<lambda>x. x \<noteq> p) q)"






section \<open>Notions for the proofs about the size rollup\<close>

text \<open>
  A root path the rollup handles: it is not empty and does not end with the separator.
  A plain name is what a directory listing gives: not empty and without a separator.
\<close>

definition proper :: "string \<Rightarrow> bool" where
  "proper p = (p \<noteq> [] \<and> last p \<noteq> sep)"

definition plain :: "string \<Rightarrow> bool" where
  "plain n = (n \<noteq> [] \<and> sep \<notin> set n)"

text \<open>
  A tree as a file system has it: the subdirectories of a directory have plain names,
  different from each other.
\<close>

fun wf_tree :: "node \<Rightarrow> bool" where
  "wf_tree Opaque = True"
| "wf_tree (Dir fs ds) =
     (distinct (map fst ds) \<and> list_all (\<lambda>e. plain (fst e) \<and> wf_tree (snd e)) ds)"

text \<open>\<open>under q c\<close>: the path \<open>c\<close> is \<open>q\<close> or lies below it.\<close>

definition under :: "string \<Rightarrow> string \<Rightarrow> bool" where
  "under q c = (\<exists>r. c = q @ r \<and> (r = [] \<or> hd r = sep))"

text \<open>
  What the first phase collects for a walk that is never cancelled: the bytes of the files
  of one directory, and the table of these sums.
\<close>

definition own_size :: "(string \<times> nat option) list \<Rightarrow> nat" where
  "own_size fs = sum_list (map (\<lambda>f. case snd f of None \<Rightarrow> 0 | Some n \<Rightarrow> n) fs)"

definition sizes_of ::
  "(string \<times> string list \<times> (string \<times> nat option) list) list \<Rightarrow> (string \<rightharpoonup> nat) \<Rightarrow> (string \<rightharpoonup> nat)" where
  "sizes_of W sz = fold (\<lambda>t m. m(fst t \<mapsto> own_size (snd (snd t)))) W sz"

text \<open>
  The walk once more, with what the proofs need to know of each directory: its own bytes
  and the paths of the subdirectories the walk enters. \<open>subtotals\<close> lists, for each
  directory walked, the bytes of all files under it.
\<close>

definition kids :: "string \<Rightarrow> (string \<times> node) list \<Rightarrow> string list" where
  "kids p ds = map (\<lambda>e. path_join p (fst e)) (filter (\<lambda>e. snd e \<noteq> Opaque) ds)"

fun desc :: "string \<Rightarrow> node \<Rightarrow> (string \<times> nat \<times> string list) list" where
  "desc p Opaque = []"
| "desc p (Dir fs ds) =
     (p, own_size fs, kids p ds) # concat (map (\<lambda>e. desc (path_join p (fst e)) (snd e)) ds)"

fun subtotals :: "string \<Rightarrow> node \<Rightarrow> (string \<times> nat) list" where
  "subtotals p Opaque = []"
| "subtotals p (Dir fs ds) =
     (p, total_size (Dir fs ds)) #
     concat (map (\<lambda>e. subtotals (path_join p (fst e)) (snd e)) ds)"

text \<open>
  The rollup without its signals: the pairs of path and size it reports for a list of
  directories, starting from a table of totals.
\<close>

fun roll :: "string list \<Rightarrow> (string \<rightharpoonup> nat) \<Rightarrow> (string \<times> nat) list" where
  "roll [] t = []"
| "roll (d # ds) t = (d, get0 (add_to_parent t d) d) # roll ds (add_to_parent t d)"

text \<open>The order in which the rollup takes the directories, and what it reports for them.\<close>

definition processing_order :: "string \<Rightarrow> node \<Rightarrow> string list" where
  "processing_order root tree = sorted_reverse depth (map fst (walk root tree))"

definition vals :: "string \<Rightarrow> node \<Rightarrow> (string \<times> nat) list" where
  "vals root tree = roll (processing_order root tree) (sizes_of (walk root tree) Map.empty)"

text \<open>No directory of the list is followed by one of its children.\<close>

fun no_child_after :: "string list \<Rightarrow> bool" where
  "no_child_after [] = True"
| "no_child_after (x # xs) = (list_all (\<lambda>c. dirname c \<noteq> x) xs \<and> no_child_after xs)"


section \<open>Properties of SearchWorker\<close>

lemma found_paths_append: "found_paths (xs @ ys) = found_paths xs @ found_paths ys"
  by (induction xs rule: found_paths.induct) simp_all

lemma done_lists_append: "done_lists (xs @ ys) = done_lists xs @ done_lists ys"
  by (induction xs rule: done_lists.induct) simp_all

lemma search_names_found:
  "found_paths (emitted st) = results st \<Longrightarrow>
   found_paths (emitted (search_names py needle r names st)) = results (search_names py needle r names st)"
  by (induction names arbitrary: st) (simp_all add: Let_def found_paths_append)

lemma search_names_no_done:
  "done_lists (emitted st) = [] \<Longrightarrow> done_lists (emitted (search_names py needle r names st)) = []"
  by (induction names arbitrary: st) (simp_all add: Let_def done_lists_append)

lemma search_walk_found:
  "found_paths (emitted st) = results st \<Longrightarrow>
   found_paths (emitted (search_walk py needle ts st)) = results (search_walk py needle ts st)"
  by (induction py needle ts st rule: search_walk.induct) (simp_all add: search_names_found)

lemma search_walk_no_done:
  "done_lists (emitted st) = [] \<Longrightarrow> done_lists (emitted (search_walk py needle ts st)) = []"
  by (induction py needle ts st rule: search_walk.induct) (simp_all add: search_names_no_done)

lemma search_final_found:
  "found_paths (emitted (search_final py root_path tree needle k)) =
   results (search_final py root_path tree needle k)"
  unfolding search_final_def by (rule search_walk_found) (simp add: search_init_def)

lemma search_final_no_done:
  "done_lists (emitted (search_final py root_path tree needle k)) = []"
  unfolding search_final_def by (rule search_walk_no_done) (simp add: search_init_def)

lemma prefix_iff_take: "prefix xs ys \<longleftrightarrow> take (length xs) ys = xs"
  by (metis append_eq_conv_conj prefix_def append_take_drop_id)

lemma contains_iff_sublist: "contains needle s \<longleftrightarrow> sublist needle s"
  by (induction s) (simp_all add: sublist_Cons_right prefix_iff_take)

lemma code_lower:
  "(of_char (ascii_lower_char c) :: nat) = (if is_capital c then of_char c + 32 else of_char c)"
  by (simp add: ascii_lower_char_def is_capital_def)

lemma char_eq_code: "a = b \<longleftrightarrow> (of_char a :: nat) = of_char b"
  by simp

lemma ci_eq_iff: "ci_eq a b \<longleftrightarrow> ascii_lower_char a = ascii_lower_char b"
proof -
  define x where "x = (of_char a :: nat)"
  define y where "y = (of_char b :: nat)"
  have "ascii_lower_char a = ascii_lower_char b \<longleftrightarrow>
        (of_char (ascii_lower_char a) :: nat) = of_char (ascii_lower_char b)"
    by (rule char_eq_code)
  also have "\<dots> \<longleftrightarrow>
      (if 65 \<le> x \<and> x \<le> 90 then x + 32 else x) = (if 65 \<le> y \<and> y \<le> 90 then y + 32 else y)"
    by (simp only: code_lower is_capital_def x_def y_def)
  also have "\<dots> \<longleftrightarrow>
      (x = y \<or> ((65 \<le> x \<and> x \<le> 90) \<and> y = x + 32) \<or> ((65 \<le> y \<and> y \<le> 90) \<and> x = y + 32))"
    by presburger
  also have "\<dots> \<longleftrightarrow> ci_eq a b"
    unfolding ci_eq_def is_capital_def x_def y_def char_eq_code [of a b] ..
  finally show ?thesis ..
qed

lemma list_all2_ci_eq: "list_all2 ci_eq xs ys \<longleftrightarrow> ascii_lower xs = ascii_lower ys"
proof -
  have "list_all2 ci_eq xs ys \<longleftrightarrow>
        list_all2 (=) (map ascii_lower_char xs) (map ascii_lower_char ys)"
    unfolding list.rel_map by (simp add: ci_eq_iff [abs_def])
  then show ?thesis by (simp add: list.rel_eq ascii_lower_def)
qed

lemma sublist_ascii_lower:
  "sublist (ascii_lower needle) (ascii_lower name) \<longleftrightarrow> ci_substring needle name"
proof
  assume "sublist (ascii_lower needle) (ascii_lower name)"
  then obtain ps ss where
    "map ascii_lower_char name = ps @ (map ascii_lower_char needle @ ss)"
    by (auto simp: sublist_def ascii_lower_def)
  then have "\<exists>pre rest. name = pre @ rest \<and> ps = map ascii_lower_char pre
      \<and> map ascii_lower_char needle @ ss = map ascii_lower_char rest"
    by (simp only: map_eq_append_conv)
  then obtain pre rest where 1: "name = pre @ rest"
      "map ascii_lower_char rest = map ascii_lower_char needle @ ss"
    by auto
  from 1(2) have "\<exists>mid post. rest = mid @ post
      \<and> map ascii_lower_char needle = map ascii_lower_char mid
      \<and> ss = map ascii_lower_char post"
    by (simp only: map_eq_append_conv)
  then obtain mid post where 2: "rest = mid @ post"
      "map ascii_lower_char mid = map ascii_lower_char needle"
    by auto
  have "list_all2 ci_eq needle mid" using 2 by (simp add: list_all2_ci_eq ascii_lower_def)
  with 1 2 show "ci_substring needle name" unfolding ci_substring_def by blast
next
  assume "ci_substring needle name"
  then obtain pre mid post where "name = pre @ mid @ post" "ascii_lower needle = ascii_lower mid"
    by (auto simp: ci_substring_def list_all2_ci_eq)
  then show "sublist (ascii_lower needle) (ascii_lower name)"
    by (auto simp: sublist_def ascii_lower_def)
qed

lemma ci_eq_refl: "ci_eq a a"
  by (simp add: ci_eq_def)

lemma sublist_ci_substring: "sublist needle name \<Longrightarrow> ci_substring needle name"
proof -
  assume "sublist needle name"
  then obtain pre post where "name = pre @ needle @ post" by (auto simp: sublist_def)
  moreover have "list_all2 ci_eq needle needle" by (simp add: list_all2_same ci_eq_refl)
  ultimately show ?thesis unfolding ci_substring_def by blast
qed

text \<open>
  Where \<^verbatim>\<open>str.lower()\<close> does to the needle and to the name what it does to ASCII
  text, the test of the code is the matching rule of the specification.
\<close>

lemma match_rule:
  assumes "str_lower py needle = ascii_lower needle" "str_lower py name = ascii_lower name"
  shows "contains (str_lower py needle) (str_lower py name) \<longleftrightarrow> ci_substring needle name"
  by (simp add: assms contains_iff_sublist sublist_ascii_lower)

lemma matching_append: "matching py needle (xs @ ys) = matching py needle xs @ matching py needle ys"
  by (simp add: matching_def)

lemma search_names_stopped: "\<not> running (flag st) \<Longrightarrow> search_names py needle r names st = st"
  by (cases names) simp_all

lemma search_walk_stopped: "\<not> running (flag st) \<Longrightarrow> search_walk py needle ts st = st"
  by (cases ts) auto

lemma search_names_results:
  "\<exists>ys. results (search_names py needle r names st) = results st @ ys
      \<and> prefix ys (matching py needle (map (Pair r) names))
      \<and> (running (flag (search_names py needle r names st)) \<longrightarrow>
           ys = matching py needle (map (Pair r) names))"
proof (induction names arbitrary: st)
  case Nil
  then show ?case by (simp add: matching_def)
next
  case (Cons name names)
  show ?case
  proof (cases "running (flag st)")
    case False
    then show ?thesis by (simp add: search_names_stopped)
  next
    case True
    define st1 where "st1 = st\<lparr>flag := after_read (flag st), count := count st + 1\<rparr>"
    define st2 where "st2 = (if contains needle (str_lower py name)
                   then st1\<lparr>results := results st1 @ [path_join r name],
                            emitted := emitted st1 @ [Found (path_join r name)]\<rparr>
                   else st1)"
    define st3 where "st3 = (if count st2 mod 500 = 0
                   then st2\<lparr>emitted := emitted st2 @ [SearchProgress (count st2) r]\<rparr>
                   else st2)"
    have step: "search_names py needle r (name # names) st = search_names py needle r names st3"
      using True by (simp add: st1_def st2_def st3_def Let_def)
    have r3: "results st3 = results st @ matching py needle [(r, name)]"
      by (simp add: st1_def st2_def st3_def matching_def)
    from Cons.IH [of st3] obtain ys where ys:
      "results (search_names py needle r names st3) = results st3 @ ys"
      "prefix ys (matching py needle (map (Pair r) names))"
      "running (flag (search_names py needle r names st3)) \<longrightarrow> ys = matching py needle (map (Pair r) names)"
      by blast
    have m: "matching py needle (map (Pair r) (name # names)) =
             matching py needle [(r, name)] @ matching py needle (map (Pair r) names)"
      by (simp add: matching_def)
    have a: "results (search_names py needle r (name # names) st) =
             results st @ matching py needle [(r, name)] @ ys"
      by (simp only: step ys r3 append_assoc)
    have b: "prefix (matching py needle [(r, name)] @ ys) (matching py needle (map (Pair r) (name # names)))"
      using ys(2) by (simp only: m same_prefix_prefix)
    have c: "running (flag (search_names py needle r (name # names) st)) \<longrightarrow>
             matching py needle [(r, name)] @ ys = matching py needle (map (Pair r) (name # names))"
      using ys(3) by (simp only: step m) simp
    from a b c show ?thesis by blast
  qed
qed

lemma entries_Cons:
  "entries ((r, dirs, files) # ts) = map (Pair r) (dirs @ map fst files) @ entries ts"
  by (simp add: entries_def)

lemma search_walk_results:
  "\<exists>ys. results (search_walk py needle ts st) = results st @ ys
      \<and> prefix ys (matching py needle (entries ts))
      \<and> (running (flag (search_walk py needle ts st)) \<longrightarrow> ys = matching py needle (entries ts))"
proof (induction ts arbitrary: st)
  case Nil
  then show ?case by (simp add: matching_def entries_def)
next
  case (Cons t ts)
  obtain r dirs files where t: "t = (r, dirs, files)" by (cases t) auto
  show ?case
  proof (cases "running (flag st)")
    case False
    then show ?thesis by (simp add: search_walk_stopped)
  next
    case True
    define st0 where "st0 = st\<lparr>flag := after_read (flag st)\<rparr>"
    define st1 where "st1 = search_names py needle r (dirs @ map fst files) st0"
    have step: "search_walk py needle (t # ts) st = search_walk py needle ts st1"
      using True by (simp add: t st0_def st1_def)
    from search_names_results [of py needle r "dirs @ map fst files" st0]
    obtain ys1 where ys1: "results st1 = results st @ ys1"
      "prefix ys1 (matching py needle (map (Pair r) (dirs @ map fst files)))"
      "running (flag st1) \<longrightarrow> ys1 = matching py needle (map (Pair r) (dirs @ map fst files))"
      unfolding st1_def st0_def by auto
    have m: "matching py needle (entries (t # ts)) =
        matching py needle (map (Pair r) (dirs @ map fst files)) @ matching py needle (entries ts)"
      unfolding t entries_Cons matching_append ..
    show ?thesis
    proof (cases "running (flag st1)")
      case False
      then have same: "search_walk py needle ts st1 = st1" by (rule search_walk_stopped)
      then have a: "results (search_walk py needle (t # ts) st) = results st @ ys1"
        by (simp only: step ys1)
      have b: "prefix ys1 (matching py needle (entries (t # ts)))"
        using ys1(2) by (simp only: m prefix_prefix)
      have c: "\<not> running (flag (search_walk py needle (t # ts) st))"
        using False same by (simp only: step) simp
      from a b c show ?thesis by blast
    next
      case True
      from Cons.IH [of st1] obtain ys2 where ys2:
        "results (search_walk py needle ts st1) = results st1 @ ys2"
        "prefix ys2 (matching py needle (entries ts))"
        "running (flag (search_walk py needle ts st1)) \<longrightarrow> ys2 = matching py needle (entries ts)"
        by blast
      have a: "results (search_walk py needle (t # ts) st) = results st @ ys1 @ ys2"
        by (simp only: step ys1 ys2 append_assoc)
      have b: "prefix (ys1 @ ys2) (matching py needle (entries (t # ts)))"
        using ys1(3) ys2(2) True by (simp only: m) simp
      have c: "running (flag (search_walk py needle (t # ts) st)) \<longrightarrow>
               ys1 @ ys2 = matching py needle (entries (t # ts))"
        using ys1(3) ys2(3) True by (simp only: step m) simp
      from a b c show ?thesis by blast
    qed
  qed
qed

lemma search_names_flag_None: "flag st = None \<Longrightarrow> flag (search_names py needle r names st) = None"
  by (induction names arbitrary: st) (simp_all add: Let_def)

lemma search_walk_flag_None: "flag st = None \<Longrightarrow> flag (search_walk py needle ts st) = None"
  by (induction py needle ts st rule: search_walk.induct) (simp_all add: search_names_flag_None)

lemma found_paths_run:
  "found_paths (SearchWorker_run py root_path tree needle k) =
   results (search_final py root_path tree needle k)"
  by (simp add: SearchWorker_run_def Let_def found_paths_append search_final_found)

lemma search_full_results:
  "results (search_final py root_path tree needle None) =
   matching py (str_lower py needle) (entries (walk root_path tree))"
proof -
  have "flag (search_final py root_path tree needle None) = None"
    unfolding search_final_def by (rule search_walk_flag_None) (simp add: search_init_def)
  with search_walk_results [of py "str_lower py needle" "walk root_path tree" "search_init None"]
  show ?thesis by (auto simp: search_final_def search_init_def)
qed

lemma search_partial_results:
  "prefix (results (search_final py root_path tree needle k))
     (matching py (str_lower py needle) (entries (walk root_path tree)))"
  using search_walk_results [of py "str_lower py needle" "walk root_path tree" "search_init k"]
  by (auto simp: search_final_def search_init_def)

lemma matching_run:
  assumes "str_lower py needle = ascii_lower needle"
    and "\<forall>e \<in> set es. str_lower py (snd e) = ascii_lower (snd e)"
  shows "matching py (str_lower py needle) es =
   map (\<lambda>e. path_join (fst e) (snd e)) (filter (\<lambda>e. ci_substring needle (snd e)) es)"
proof -
  have "filter (\<lambda>e. contains (str_lower py needle) (str_lower py (snd e))) es =
        filter (\<lambda>e. ci_substring needle (snd e)) es"
    using assms by (intro filter_cong refl) (simp add: contains_iff_sublist sublist_ascii_lower)
  then show ?thesis by (simp add: matching_def)
qed

text \<open>
  A search that is not cancelled reports the entries of the walk whose lowered name
  contains the lowered needle, joined to their directory, in the order the walk visits
  them; a cancelled search reports an initial stretch of that sequence.
\<close>

theorem search_reports_in_walk_order:
  "found_paths (SearchWorker_run py root_path tree needle None) =
     map (\<lambda>e. path_join (fst e) (snd e))
       (filter (\<lambda>e. contains (str_lower py needle) (str_lower py (snd e)))
          (entries (walk root_path tree)))
   \<and> prefix (found_paths (SearchWorker_run py root_path tree needle k))
       (found_paths (SearchWorker_run py root_path tree needle None))"
proof -
  have full: "found_paths (SearchWorker_run py root_path tree needle None) =
     map (\<lambda>e. path_join (fst e) (snd e))
       (filter (\<lambda>e. contains (str_lower py needle) (str_lower py (snd e)))
          (entries (walk root_path tree)))"
    by (simp only: found_paths_run search_full_results matching_def)
  have part: "prefix (found_paths (SearchWorker_run py root_path tree needle k))
       (found_paths (SearchWorker_run py root_path tree needle None))"
    by (simp only: found_paths_run search_full_results search_partial_results)
  from full part show ?thesis by blast
qed

text \<open>
  On a needle and on names that \<^verbatim>\<open>str.lower()\<close> treats as it treats ASCII text, the
  entries reported are those that contain the needle under case-insensitive comparison.
\<close>

theorem search_match_rule_on_ascii:
  assumes "str_lower py needle = ascii_lower needle"
    and "\<forall>e \<in> set (entries (walk root_path tree)). str_lower py (snd e) = ascii_lower (snd e)"
  shows "found_paths (SearchWorker_run py root_path tree needle None) =
       map (\<lambda>e. path_join (fst e) (snd e))
         (filter (\<lambda>e. ci_substring needle (snd e)) (entries (walk root_path tree)))"
  by (simp only: found_paths_run search_full_results matching_run [OF assms])

text \<open>The needle \<^verbatim>\<open>LOG\<close> matches the file name \<^verbatim>\<open>app.log\<close>.\<close>

lemma log_matches_app_log:
  "ci_substring ''LOG'' ''app.log''
   \<and> found_paths (SearchWorker_run sample_py ''/r''
        (Dir [(''app.log'', Some 1), (''notes'', None)] [(''Logs'', Opaque)]) ''LOG'' None)
      = [''/r/Logs'', ''/r/app.log'']"
proof -
  have "contains (ascii_lower ''LOG'') (ascii_lower ''app.log'')" by code_simp
  then have "ci_substring ''LOG'' ''app.log''"
    by (simp only: contains_iff_sublist sublist_ascii_lower)
  moreover have "found_paths (SearchWorker_run sample_py ''/r''
        (Dir [(''app.log'', Some 1), (''notes'', None)] [(''Logs'', Opaque)]) ''LOG'' None)
      = [''/r/Logs'', ''/r/app.log'']" by code_simp
  ultimately show ?thesis by simp
qed

text \<open>
  Whatever else \<^verbatim>\<open>str.lower()\<close> does, once it gives the two Greek texts their
  lowered forms the search for the one does not find the other.
\<close>

lemma final_sigma_missed:
  assumes "str_lower py sigma_needle = sigma_needle_lowered"
    and "str_lower py sigma_name = sigma_name_lowered"
  shows "found_paths (SearchWorker_run py root_path (Dir [(sigma_name, Some n)] []) sigma_needle None)
         = []"
proof -
  have c: "\<not> contains sigma_needle_lowered sigma_name_lowered" by code_simp
  have "entries (walk root_path (Dir [(sigma_name, Some n)] [])) = [(root_path, sigma_name)]"
    by (simp add: entries_def)
  then show ?thesis
    using c by (simp add: found_paths_run search_full_results matching_def assms)
qed

text \<open>
  C6 at a Greek name. The needle, capital alpha and capital sigma, is a contained
  substring of the name made of capital alpha, capital sigma, capital alpha and
  \<^verbatim>\<open>.txt\<close>: it stands at its beginning letter for letter, so also under
  case-insensitive comparison. The search does not report the name: lowered on its own
  the needle ends with the final small sigma, which the lowered name does not contain.
\<close>

theorem capital_sigma_name_not_found:
  "contains sigma_needle sigma_name
   \<and> ci_substring sigma_needle sigma_name
   \<and> found_paths (SearchWorker_run sample_py ''/r'' (Dir [(sigma_name, Some 1)] [])
        sigma_needle None) = []"
proof -
  have c: "contains sigma_needle sigma_name" by code_simp
  then have s: "ci_substring sigma_needle sigma_name"
    by (simp only: contains_iff_sublist sublist_ci_substring)
  have f: "found_paths (SearchWorker_run sample_py ''/r'' (Dir [(sigma_name, Some 1)] [])
        sigma_needle None) = []" by code_simp
  from c s f show ?thesis by simp
qed

text \<open>
  \<^verbatim>\<open>SearchWorker\<close> run with the empty needle on a directory with one file reports
  that file: the empty string is contained in every name.
\<close>

theorem empty_needle_counterexample:
  "found_paths (SearchWorker_run sample_py ''/r'' (Dir [(''app.log'', Some 1)] []) [] None) \<noteq> []"
  by code_simp

lemma contains_Nil: "contains [] s"
  by (cases s) simp_all

lemma matching_Nil: "matching py [] es = map (\<lambda>e. path_join (fst e) (snd e)) es"
  by (simp add: matching_def contains_Nil)

text \<open>
  C4, as the code has it. \<^verbatim>\<open>SearchWorker\<close> given the empty needle, which
  \<^verbatim>\<open>str.lower()\<close> leaves empty, reports every entry the walk visits. That an empty
  needle gives no results is the work of the callers: \<^verbatim>\<open>find_next\<close> and
  \<^verbatim>\<open>find_prev\<close> return at once, starting no search and changing nothing, when the
  stripped search text is empty, whatever \<^verbatim>\<open>str.strip()\<close> counts as white space.
\<close>

theorem empty_needle_guarded:
  "(str_lower py [] = [] \<longrightarrow>
      found_paths (SearchWorker_run py root_path tree [] None) =
        map (\<lambda>e. path_join (fst e) (snd e)) (entries (walk root_path tree)))
   \<and> (str_strip py (search_text w) = [] \<longrightarrow>
        find_next py env w = Inr (w, []) \<and> find_prev py env w = Inr (w, []))"
  by (simp add: found_paths_run search_full_results matching_Nil
        find_next_def find_prev_def)

text \<open>
  A search text of a blank and a no-break space (U+00A0) is empty once stripped, and
  \<^verbatim>\<open>find_next\<close> returns at once, also with a match at hand.
\<close>

theorem empty_needle_guarded_witness:
  "str_lower sample_py [] = []
   \<and> str_strip sample_py [CHR '' '', CHR 0xC2, CHR 0xA0] = []
   \<and> find_next sample_py sample_env
        \<lparr>search_text = [CHR '' '', CHR 0xC2, CHR 0xA0], matches = Some [''/r/app.log''], match_pos = 0\<rparr>
      = Inr (\<lparr>search_text = [CHR '' '', CHR 0xC2, CHR 0xA0], matches = Some [''/r/app.log''], match_pos = 0\<rparr>, [])
   \<and> found_paths (SearchWorker_run sample_py ''/r'' (Dir [(''app.log'', Some 1)] []) [] None)
      = [''/r/app.log'']"
proof -
  have l: "str_lower sample_py [] = []" by code_simp
  have s: "str_strip sample_py [CHR '' '', CHR 0xC2, CHR 0xA0] = []" by code_simp
  have e: "map (\<lambda>e. path_join (fst e) (snd e)) (entries (walk ''/r'' (Dir [(''app.log'', Some 1)] [])))
      = [''/r/app.log'']" by code_simp
  show ?thesis
    using l s e empty_needle_guarded [of sample_py "''/r''" "Dir [(''app.log'', Some 1)] []"
      "\<lparr>search_text = [CHR '' '', CHR 0xC2, CHR 0xA0], matches = Some [''/r/app.log''], match_pos = 0\<rparr>"
      sample_env]
    by simp
qed

section \<open>Properties of the search navigation\<close>

lemma move_cursor_ok:
  assumes "the_matches w \<noteq> []"
  shows "move_cursor d w =
     Inr (w\<lparr>match_pos := (match_pos w + d) mod int (length (the_matches w))\<rparr>,
          the_matches w ! nat ((match_pos w + d) mod int (length (the_matches w))))"
proof -
  let ?n = "int (length (the_matches w))"
  have n: "0 < ?n" using assms by simp
  then have "0 \<le> (match_pos w + d) mod ?n" "(match_pos w + d) mod ?n < ?n"
    by simp_all
  with n show ?thesis
    by (simp add: move_cursor_def py_mod_def py_subscript_def)
qed

lemma the_matches_update [simp]: "the_matches (w\<lparr>match_pos := p\<rparr>) = the_matches w"
  by (simp add: the_matches_def)

lemma has_matches_update [simp]: "has_matches (w\<lparr>match_pos := p\<rparr>) = has_matches w"
  by (simp add: has_matches_def)

lemma find_next_with_matches:
  assumes "str_strip py (search_text w) \<noteq> []" "has_matches w"
  shows "find_next py env w =
     Inr (w\<lparr>match_pos := (match_pos w + 1) mod int (length (the_matches w))\<rparr>,
          [Navigate (the_matches w ! nat ((match_pos w + 1) mod int (length (the_matches w)))),
           ShowStatus ((match_pos w + 1) mod int (length (the_matches w)) + 1)
             (length (the_matches w))])"
  using assms by (simp add: find_next_def has_matches_def move_cursor_ok)

lemma find_prev_with_matches:
  assumes "str_strip py (search_text w) \<noteq> []" "has_matches w"
  shows "find_prev py env w =
     Inr (w\<lparr>match_pos := (match_pos w - 1) mod int (length (the_matches w))\<rparr>,
          [Navigate (the_matches w ! nat ((match_pos w - 1) mod int (length (the_matches w))))])"
  using assms by (simp add: find_prev_def has_matches_def move_cursor_ok)

lemma next_times_with_matches:
  assumes "str_strip py (search_text w) \<noteq> []" "has_matches w"
  shows "next_times k py env w =
     Inr (if k = 0 then w
          else w\<lparr>match_pos := (match_pos w + int k) mod int (length (the_matches w))\<rparr>)"
  using assms
proof (induction k arbitrary: w)
  case 0
  then show ?case by simp
next
  case (Suc k)
  let ?n = "int (length (the_matches w))"
  let ?w = "w\<lparr>match_pos := (match_pos w + 1) mod ?n\<rparr>"
  have a: "str_strip py (search_text ?w) \<noteq> []" "has_matches ?w" using Suc.prems by simp_all
  have m: "((match_pos w + 1) mod ?n + int k) mod ?n = (match_pos w + int (Suc k)) mod ?n"
  proof -
    have "((match_pos w + 1) mod ?n + int k) mod ?n = (match_pos w + 1 + int k) mod ?n"
      by (rule mod_add_left_eq)
    also have "match_pos w + 1 + int k = match_pos w + int (Suc k)" by simp
    finally show ?thesis .
  qed
  show ?case
    using Suc.IH [OF a] m
    by (simp add: find_next_with_matches [OF Suc.prems])
qed

lemma find_next_without_matches:
  assumes "str_strip py (search_text w) \<noteq> []" "\<not> has_matches w"
  shows "find_next py env w =
     (if \<not> env_root_valid env then Inr (w, [WarnNoRoot])
      else if \<not> env_root_is_dir env then Inr (w, [])
      else Inr (w\<lparr>matches := Some [], match_pos := - 1\<rparr>,
                (if env_search_running env then [StopSearch] else []) @
                [StartSearch (env_root_path env) (str_strip py (search_text w))]))"
  using assms by (simp add: find_next_def)

lemma find_prev_without_matches:
  assumes "str_strip py (search_text w) \<noteq> []" "\<not> has_matches w"
  shows "find_prev py env w =
     (let found = find_all_indexes py env (str_strip py (search_text w)) in
      if found = [] then Inr (w\<lparr>matches := Some [], match_pos := 0\<rparr>, [])
      else Inr (w\<lparr>matches := Some found, match_pos := int (length found) - 1\<rparr>,
                [Navigate (last found)]))"
proof -
  let ?found = "find_all_indexes py env (str_strip py (search_text w))"
  let ?w1 = "w\<lparr>matches := Some ?found, match_pos := 0\<rparr>"
  have t: "the_matches ?w1 = ?found" by (simp add: the_matches_def)
  show ?thesis
  proof (cases "?found = []")
    case True
    then show ?thesis using assms t by (simp add: find_prev_def has_matches_def Let_def)
  next
    case False
    then have n: "0 < int (length ?found)" by simp
    have p: "(- 1) mod int (length ?found) = int (length ?found) - 1"
      using n by (simp add: zmod_minus1)
    have l: "?found ! nat (int (length ?found) - 1) = last ?found"
      using False by (simp add: last_conv_nth nat_diff_distrib')
    have mc: "move_cursor (- 1) ?w1 =
        Inr (?w1\<lparr>match_pos := int (length ?found) - 1\<rparr>, last ?found)"
      using move_cursor_ok [of ?w1 "- 1"] False t p l by simp
    show ?thesis
      using assms False t mc by (simp add: find_prev_def has_matches_def Let_def)
  qed
qed

text \<open>
  C9, as the code has it. With a search text that is not empty once stripped, whatever
  \<^verbatim>\<open>str.strip()\<close> removes, and \<open>n > 0\<close> matches, \<^verbatim>\<open>find_next\<close>
  and \<^verbatim>\<open>find_prev\<close> move the cursor by one modulo \<open>n\<close>, so it lies in \<open>[0, n)\<close>
  afterwards, and \<open>n\<close> requests of \<^verbatim>\<open>find_next\<close> from a position in range come back
  to it. With no matches neither operation raises, but neither is a no-op:
  \<^verbatim>\<open>find_next\<close> starts a new threaded search when the root is a valid directory, and
  \<^verbatim>\<open>find_prev\<close> searches synchronously and moves to the last match found, if any.
\<close>

theorem cursor_navigation:
  "str_strip py (search_text w) \<noteq> [] \<Longrightarrow>
   (has_matches w \<longrightarrow>
      (\<exists>acts. find_next py env w =
         Inr (w\<lparr>match_pos := (match_pos w + 1) mod int (length (the_matches w))\<rparr>, acts))
    \<and> (\<exists>acts. find_prev py env w =
         Inr (w\<lparr>match_pos := (match_pos w - 1) mod int (length (the_matches w))\<rparr>, acts))
    \<and> 0 \<le> (match_pos w + 1) mod int (length (the_matches w))
    \<and> (match_pos w + 1) mod int (length (the_matches w)) < int (length (the_matches w))
    \<and> 0 \<le> (match_pos w - 1) mod int (length (the_matches w))
    \<and> (match_pos w - 1) mod int (length (the_matches w)) < int (length (the_matches w))
    \<and> (0 \<le> match_pos w \<and> match_pos w < int (length (the_matches w)) \<longrightarrow>
         next_times (length (the_matches w)) py env w = Inr w))
   \<and> (\<not> has_matches w \<longrightarrow>
        find_next py env w =
          (if \<not> env_root_valid env then Inr (w, [WarnNoRoot])
           else if \<not> env_root_is_dir env then Inr (w, [])
           else Inr (w\<lparr>matches := Some [], match_pos := - 1\<rparr>,
                     (if env_search_running env then [StopSearch] else []) @
                     [StartSearch (env_root_path env) (str_strip py (search_text w))]))
      \<and> find_prev py env w =
          (let found = find_all_indexes py env (str_strip py (search_text w)) in
           if found = [] then Inr (w\<lparr>matches := Some [], match_pos := 0\<rparr>, [])
           else Inr (w\<lparr>matches := Some found, match_pos := int (length found) - 1\<rparr>,
                     [Navigate (last found)])))
   \<and> (\<forall>e. find_next py env w \<noteq> Inl e \<and> find_prev py env w \<noteq> Inl e)"
proof -
  assume needle: "str_strip py (search_text w) \<noteq> []"
  let ?n = "int (length (the_matches w))"
  have A: "has_matches w \<longrightarrow>
      (\<exists>acts. find_next py env w = Inr (w\<lparr>match_pos := (match_pos w + 1) mod ?n\<rparr>, acts))
    \<and> (\<exists>acts. find_prev py env w = Inr (w\<lparr>match_pos := (match_pos w - 1) mod ?n\<rparr>, acts))
    \<and> 0 \<le> (match_pos w + 1) mod ?n \<and> (match_pos w + 1) mod ?n < ?n
    \<and> 0 \<le> (match_pos w - 1) mod ?n \<and> (match_pos w - 1) mod ?n < ?n
    \<and> (0 \<le> match_pos w \<and> match_pos w < ?n \<longrightarrow>
         next_times (length (the_matches w)) py env w = Inr w)"
  proof
    assume h: "has_matches w"
    then have n: "0 < ?n" by (simp add: has_matches_def)
    have again: "0 \<le> match_pos w \<and> match_pos w < ?n \<longrightarrow>
         next_times (length (the_matches w)) py env w = Inr w"
    proof
      assume r: "0 \<le> match_pos w \<and> match_pos w < ?n"
      then have "(match_pos w + ?n) mod ?n = match_pos w" by simp
      then show "next_times (length (the_matches w)) py env w = Inr w"
        using n by (simp add: next_times_with_matches [OF needle h])
    qed
    show "(\<exists>acts. find_next py env w = Inr (w\<lparr>match_pos := (match_pos w + 1) mod ?n\<rparr>, acts))
    \<and> (\<exists>acts. find_prev py env w = Inr (w\<lparr>match_pos := (match_pos w - 1) mod ?n\<rparr>, acts))
    \<and> 0 \<le> (match_pos w + 1) mod ?n \<and> (match_pos w + 1) mod ?n < ?n
    \<and> 0 \<le> (match_pos w - 1) mod ?n \<and> (match_pos w - 1) mod ?n < ?n
    \<and> (0 \<le> match_pos w \<and> match_pos w < ?n \<longrightarrow>
         next_times (length (the_matches w)) py env w = Inr w)"
      using n again
      by (simp add: find_next_with_matches [OF needle h] find_prev_with_matches [OF needle h])
  qed
  have B: "\<not> has_matches w \<longrightarrow>
        find_next py env w =
          (if \<not> env_root_valid env then Inr (w, [WarnNoRoot])
           else if \<not> env_root_is_dir env then Inr (w, [])
           else Inr (w\<lparr>matches := Some [], match_pos := - 1\<rparr>,
                     (if env_search_running env then [StopSearch] else []) @
                     [StartSearch (env_root_path env) (str_strip py (search_text w))]))
      \<and> find_prev py env w =
          (let found = find_all_indexes py env (str_strip py (search_text w)) in
           if found = [] then Inr (w\<lparr>matches := Some [], match_pos := 0\<rparr>, [])
           else Inr (w\<lparr>matches := Some found, match_pos := int (length found) - 1\<rparr>,
                     [Navigate (last found)]))"
    using find_next_without_matches [OF needle] find_prev_without_matches [OF needle]
    by blast
  have C: "\<forall>e. find_next py env w \<noteq> Inl e \<and> find_prev py env w \<noteq> Inl e"
  proof (cases "has_matches w")
    case True
    then show ?thesis
      by (simp add: find_next_with_matches [OF needle] find_prev_with_matches [OF needle])
  next
    case False
    then show ?thesis
      by (simp add: find_next_without_matches [OF needle] find_prev_without_matches [OF needle]
            Let_def)
  qed
  from A B C show ?thesis by blast
qed

text \<open>With three matches, three requests of \<^verbatim>\<open>find_next\<close> from match 0 return to match 0.\<close>

theorem cursor_navigation_witness:
  "str_strip sample_py ''log'' \<noteq> []
   \<and> has_matches \<lparr>search_text = ''log'', matches = Some [''/r/a'', ''/r/b'', ''/r/c''], match_pos = 0\<rparr>
   \<and> next_times 3 sample_py sample_env
        \<lparr>search_text = ''log'', matches = Some [''/r/a'', ''/r/b'', ''/r/c''], match_pos = 0\<rparr>
      = Inr \<lparr>search_text = ''log'', matches = Some [''/r/a'', ''/r/b'', ''/r/c''], match_pos = 0\<rparr>"
proof -
  let ?w = "\<lparr>search_text = ''log'', matches = Some [''/r/a'', ''/r/b'', ''/r/c''], match_pos = 0\<rparr>"
  have s: "str_strip sample_py (search_text ?w) \<noteq> []" by code_simp
  have h: "has_matches ?w" by (simp add: has_matches_def the_matches_def)
  have l: "length (the_matches ?w) = 3" by (simp add: the_matches_def)
  from cursor_navigation [OF s, of sample_env] h l
  have "next_times 3 sample_py sample_env ?w = Inr ?w" by simp
  with s h show ?thesis by simp
qed

text \<open>
  With no matches \<^verbatim>\<open>find_next\<close> starts a search and resets the cursor to \<open>-1\<close>; and
  while that search streams its first result the window has one match and the cursor
  \<open>-1\<close>, outside \<open>[0, 1)\<close>.
\<close>

theorem zero_matches_counterexample:
  "find_next sample_py sample_env \<lparr>search_text = ''log'', matches = Some [], match_pos = 0\<rparr>
     = Inr (\<lparr>search_text = ''log'', matches = Some [], match_pos = - 1\<rparr>,
            [StartSearch ''/r'' ''log''])
   \<and> find_next sample_py sample_env \<lparr>search_text = ''log'', matches = Some [], match_pos = 0\<rparr>
     \<noteq> Inr (\<lparr>search_text = ''log'', matches = Some [], match_pos = 0\<rparr>, [])
   \<and> on_search_found sample_env
        \<lparr>search_text = ''log'', matches = Some [], match_pos = - 1\<rparr> ''/r/app.log''
     = \<lparr>search_text = ''log'', matches = Some [''/r/app.log''], match_pos = - 1\<rparr>"
  by code_simp

text \<open>
  The needle handed to the search is the stripped text: a no-break space after
  \<^verbatim>\<open>log\<close> is not part of it.
\<close>

lemma search_text_is_stripped:
  "find_next sample_py sample_env
     \<lparr>search_text = ''log'' @ [CHR 0xC2, CHR 0xA0], matches = Some [], match_pos = 0\<rparr>
   = Inr (\<lparr>search_text = ''log'' @ [CHR 0xC2, CHR 0xA0], matches = Some [], match_pos = - 1\<rparr>,
          [StartSearch ''/r'' ''log''])"
  by code_simp

section \<open>The terminal signal of SearchWorker\<close>

text \<open>
  C10. Whatever the tree, the needle and the moment of cancellation, the run ends with
  exactly one \<^verbatim>\<open>done\<close> signal, and the list it carries is the sequence of paths of the
  \<^verbatim>\<open>found\<close> signals emitted before it, in the same order.
\<close>

theorem search_done_carries_found:
  "\<exists>pre. SearchWorker_run py root_path tree needle k = pre @ [SearchDone (found_paths pre)]
     \<and> done_lists pre = []"
  unfolding SearchWorker_run_def Let_def
  using search_final_found [of py root_path tree needle k]
        search_final_no_done [of py root_path tree needle k]
  by auto

section \<open>Properties of the expansion drain\<close>

text \<open>
  After a stop request (\<^verbatim>\<open>_expanding\<close> cleared) the pending tick returns at once: it
  does not reschedule although the queue holds a path and the producer is still running.
\<close>

theorem stopped_drain_counterexample:
  "verdict (process_expand_queue_step
      \<lparr>look = (\<lambda>p. Valid), arrived = [], thread_running = Some True\<rparr>
      \<lparr>expanding = False, expand_queue = [''/r/a''], expand_attempts = Map.empty\<rparr>) = Stopped
   \<and> verdict (process_expand_queue_step
      \<lparr>look = (\<lambda>p. Valid), arrived = [], thread_running = Some True\<rparr>
      \<lparr>expanding = False, expand_queue = [''/r/a''], expand_attempts = Map.empty\<rparr>) \<noteq> Rescheduled"
  by (simp add: process_expand_queue_step_def)

text \<open>
  C8, as the code has it. While the expansion is active, a tick reschedules itself exactly
  when the queue is non-empty after the tick or the producer thread is still running, and
  it finalizes, clearing \<^verbatim>\<open>_expanding\<close>, exactly when the queue is empty and the
  producer is not running. Once the expansion has been stopped, a tick does neither and
  changes nothing.
\<close>

theorem drain_reschedules_until_done:
  "(expanding st \<longrightarrow>
      (verdict (process_expand_queue_step inp st) = Rescheduled \<longleftrightarrow>
         expand_queue (new_state (process_expand_queue_step inp st)) \<noteq> []
         \<or> thread_running inp = Some True)
    \<and> (verdict (process_expand_queue_step inp st) = Finalized \<longleftrightarrow>
         expand_queue (new_state (process_expand_queue_step inp st)) = []
         \<and> thread_running inp \<noteq> Some True)
    \<and> (expanding (new_state (process_expand_queue_step inp st)) \<longleftrightarrow>
         verdict (process_expand_queue_step inp st) = Rescheduled))
   \<and> (\<not> expanding st \<longrightarrow>
        verdict (process_expand_queue_step inp st) = Stopped
        \<and> new_state (process_expand_queue_step inp st) = st)"
  by (auto simp: process_expand_queue_step_def Let_def split: prod.splits)

text \<open>One queued path that expands at once: rescheduled while the producer runs, finalized after.\<close>

theorem drain_reschedules_until_done_witness:
  "expanding \<lparr>expanding = True, expand_queue = [''/r/a''], expand_attempts = Map.empty\<rparr>
   \<and> verdict (process_expand_queue_step
        \<lparr>look = (\<lambda>p. Valid), arrived = [], thread_running = Some True\<rparr>
        \<lparr>expanding = True, expand_queue = [''/r/a''], expand_attempts = Map.empty\<rparr>) = Rescheduled
   \<and> verdict (process_expand_queue_step
        \<lparr>look = (\<lambda>p. Valid), arrived = [], thread_running = Some False\<rparr>
        \<lparr>expanding = True, expand_queue = [''/r/a''], expand_attempts = Map.empty\<rparr>) = Finalized"
proof -
  let ?st = "\<lparr>expanding = True, expand_queue = [''/r/a''], expand_attempts = Map.empty\<rparr>"
  let ?run = "\<lparr>look = (\<lambda>p. Valid), arrived = [], thread_running = Some True\<rparr>"
  let ?fin = "\<lparr>look = (\<lambda>p. Valid), arrived = [], thread_running = Some False\<rparr>"
  have q: "expand_queue (new_state (process_expand_queue_step ?fin ?st)) = []"
    by (simp add: process_expand_queue_step_def process_item_def)
  show ?thesis
    using drain_reschedules_until_done [of ?st ?run] drain_reschedules_until_done [of ?st ?fin] q
    by simp
qed


lemma process_item_processed [simp]:
  "processed (process_item lk f l) = processed l + 1"
  by (simp add: process_item_def Let_def split: lookup.splits)

lemma process_item_tried [simp]: "tried (process_item lk f l) = tried l @ [f]"
  by (simp add: process_item_def Let_def split: lookup.splits)
































section \<open>Properties of FolderSizeWorker\<close>

lemma done_count_append: "done_count (xs @ ys) = done_count xs + done_count ys"
  by (induction xs rule: done_count.induct) simp_all

lemma rollup_no_done: "done_count (rollup i n ds totals k) = 0"
  by (induction i n ds totals k rule: rollup.induct) simp_all

lemma run_done_count:
  "done_count (FolderSizeWorker_run root tree k) =
     (case size_walk (walk root tree) [] Map.empty k of None \<Rightarrow> 0 | Some r \<Rightarrow> 1)"
  by (simp add: FolderSizeWorker_run_def done_count_append rollup_no_done split: option.splits)

text \<open>
  C2 fails when the flag is cleared during the walk: \<^verbatim>\<open>run\<close> returns from the first
  phase, outside the \<^verbatim>\<open>try ... finally\<close>, and no \<^verbatim>\<open>done\<close> signal is emitted at all.
  This is so for every root that can be listed when the flag is cleared before the first
  directory, and for a cancellation between a directory and its first file.
\<close>

theorem size_worker_cancelled_in_walk:
  "FolderSizeWorker_run root (Dir fs ds) (Some 0) = []
   \<and> done_count (FolderSizeWorker_run ''/r'' (Dir [(''f1'', Some 100)] []) (Some 1)) = 0"
  by (simp add: FolderSizeWorker_run_def)

text \<open>
  The scenario of the specification: under the root \<^verbatim>\<open>/r\<close> the table maps
  \<^verbatim>\<open>/r/a/b\<close> to 50 and both \<^verbatim>\<open>/r/a\<close> and \<^verbatim>\<open>/r\<close> to 150.
\<close>

lemma scenario_table:
  "size_table ''/r'' scenario_tree None ''/r/a/b'' = Some 50
   \<and> size_table ''/r'' scenario_tree None ''/r/a'' = Some 150
   \<and> size_table ''/r'' scenario_tree None ''/r'' = Some 150"
  by code_simp

text \<open>
  C1 fails when the scanned root is the file system root \<^verbatim>\<open>/\<close>: the root and its
  children have the same number of separators, the stable sort keeps the root first, and
  the root is reported before its child has been added. With 100 bytes under \<^verbatim>\<open>/a\<close>
  the table entry of the root is 0.
\<close>

theorem root_total_at_filesystem_root:
  "size_table ''/'' root_tree None ''/'' = Some 0 \<and> total_size root_tree = 100"
  by code_simp

text \<open>
  C3 fails at the same input: the parent \<^verbatim>\<open>/\<close> is finalized before its child
  \<^verbatim>\<open>/a\<close>.
\<close>

theorem parent_first_at_filesystem_root:
  "finalized (FolderSizeWorker_run ''/'' root_tree None) = [''/'', ''/a'']
   \<and> dirname ''/a'' = ''/''"
  by code_simp

text \<open>
  C7 fails at the same input: the child \<^verbatim>\<open>/a\<close> has 100 bytes in the table and its
  parent \<^verbatim>\<open>/\<close> has 0.
\<close>

theorem child_exceeds_parent_at_filesystem_root:
  "size_table ''/'' root_tree None ''/a'' = Some 100
   \<and> size_table ''/'' root_tree None ''/'' = Some 0
   \<and> dirname ''/a'' = ''/''"
  by code_simp

section \<open>The rollup below a root that does not end with the separator\<close>

lemma join_proper: "proper p \<Longrightarrow> plain n \<Longrightarrow> path_join p n = p @ sep # n"
  by (cases n) (auto simp: path_join_def proper_def plain_def)

lemma proper_child:
  assumes "proper p" "plain n"
  shows "proper (p @ sep # n)"
proof -
  from assms(2) have n: "n \<noteq> []" and "last n \<in> set n" and "sep \<notin> set n"
    by (auto simp: plain_def)
  then have "last n \<noteq> sep" by metis
  with n show ?thesis by (simp add: proper_def)
qed

lemma dropWhile_plain: "sep \<notin> set n \<Longrightarrow> dropWhile (\<lambda>c. c \<noteq> sep) (rev n @ sep # xs) = sep # xs"
  by (simp add: dropWhile_append)

lemma dirname_child:
  assumes "proper p" "plain n"
  shows "dirname (p @ sep # n) = p"
proof -
  have h: "rev (dropWhile (\<lambda>c. c \<noteq> sep) (rev (p @ sep # n))) = p @ [sep]"
    using assms(2) dropWhile_plain [of n "rev p"] by (simp add: plain_def)
  have ne: "\<not> list_all (\<lambda>c. c = sep) (p @ [sep])"
    using assms(1) by (auto simp: proper_def list_all_iff)
  have "rstrip_sep (p @ [sep]) = p"
    using assms(1) by (cases "rev p") (auto simp: rstrip_sep_def proper_def)
  with h ne show ?thesis by (simp add: dirname_def Let_def)
qed

lemma depth_child: "plain n \<Longrightarrow> depth (p @ sep # n) = Suc (depth p)"
  by (simp add: depth_def plain_def count_list_0_iff)

lemma length_dirname: "proper p \<Longrightarrow> length (dirname p) < length p"
proof -
  assume p: "proper p"
  let ?h = "rev (dropWhile (\<lambda>c. c \<noteq> sep) (rev p))"
  have "length ?h < length p"
    using p by (cases "rev p") (auto simp: proper_def intro: le_imp_less_Suc length_dropWhile_le)
  moreover have "length (rstrip_sep ?h) \<le> length ?h"
    by (simp add: rstrip_sep_def length_dropWhile_le)
  ultimately show ?thesis by (simp add: dirname_def Let_def)
qed


lemma dom_add_to_parent [simp]: "dom (add_to_parent t d) = dom t"
  by (auto simp: add_to_parent_def split: option.splits)

lemma get0_add_to_parent:
  "get0 (add_to_parent t d) e =
     get0 t e + (if dirname d = e \<and> e \<in> dom t then get0 t d else 0)"
  by (auto simp: add_to_parent_def get0_def split: option.splits)

lemma fst_roll [simp]: "map fst (roll xs t) = xs"
  by (induction xs arbitrary: t) simp_all

lemma keys_roll: "fst ` set (roll xs t) = set xs"
  by (metis fst_roll list.set_map)

lemma map_of_roll_None: "d \<notin> set xs \<Longrightarrow> map_of (roll xs t) d = None"
  by (simp add: map_of_eq_None_iff keys_roll)

lemma map_of_roll_Some: "d \<in> set xs \<Longrightarrow> \<exists>v. map_of (roll xs t) d = Some v"
  using map_of_eq_None_iff [of "roll xs t" d] by (auto simp: keys_roll)

lemma roll_equation:
  assumes "distinct xs" and "\<forall>x\<in>set xs. dirname x \<noteq> x" and "set xs \<subseteq> dom t"
    and "no_child_after xs" and "d \<in> set xs"
  shows "get0 (map_of (roll xs t)) d =
           get0 t d + sum_list (map (get0 (map_of (roll xs t))) (filter (\<lambda>c. dirname c = d) xs))"
  using assms
proof (induction xs arbitrary: t)
  case Nil
  then show ?case by simp
next
  case (Cons x xs)
  define t' where "t' = add_to_parent t x"
  define V where "V = get0 (map_of (roll (x # xs) t))"
  define V' where "V' = get0 (map_of (roll xs t'))"
  have self: "dirname x \<noteq> x" using Cons.prems(2) by simp
  have nc: "\<forall>c\<in>set xs. dirname c \<noteq> x" using Cons.prems(4) by (simp add: list_all_iff)
  have "V x = get0 t' x" by (simp add: V_def t'_def get0_def)
  then have vx: "V x = get0 t x" using self by (simp add: t'_def get0_add_to_parent)
  have same: "\<forall>c\<in>set xs. V c = V' c"
    using Cons.prems(1) by (auto simp: V_def V'_def t'_def get0_def)
  have msame: "map V (filter (\<lambda>c. dirname c = e) xs) = map V' (filter (\<lambda>c. dirname c = e) xs)"
    for e using same by (simp add: map_eq_conv)
  have goal: "V d = get0 t d + sum_list (map V (filter (\<lambda>c. dirname c = d) (x # xs)))"
  proof (cases "d = x")
    case True
    have "filter (\<lambda>c. dirname c = x) (x # xs) = []"
      using self nc by (simp add: filter_empty_conv)
    with True vx show ?thesis by simp
  next
    case False
    with Cons.prems(5) have dx: "d \<in> set xs" by simp
    have dd: "d \<in> dom t" using Cons.prems(3) dx by auto
    have ih: "V' d = get0 t' d + sum_list (map V' (filter (\<lambda>c. dirname c = d) xs))"
      unfolding V'_def using Cons.IH [of t'] Cons.prems dx by (simp add: t'_def)
    have vd: "V d = V' d" using same dx by simp
    have t1: "get0 t' d = get0 t d + (if dirname x = d then get0 t x else 0)"
      using dd by (simp add: t'_def get0_add_to_parent)
    have "sum_list (map V (filter (\<lambda>c. dirname c = d) (x # xs))) =
            (if dirname x = d then V x else 0)
            + sum_list (map V (filter (\<lambda>c. dirname c = d) xs))"
      by simp
    also have "\<dots> = (if dirname x = d then get0 t x else 0)
            + sum_list (map V' (filter (\<lambda>c. dirname c = d) xs))"
      by (simp only: vx msame)
    finally show ?thesis using ih vd t1 by simp
  qed
  then show ?case unfolding V_def .
qed


lemma walk_desc: "map fst (walk p t) = map fst (desc p t)"
  by (induction p t rule: walk.induct) (simp_all add: map_concat o_def cong: map_cong)

lemma sum_filter_map:
  assumes "\<forall>x\<in>set xs. (P x \<longrightarrow> f x = g x) \<and> (\<not> P x \<longrightarrow> g x = 0)"
  shows "sum_list (map f (filter P xs)) = (sum_list (map g xs) :: nat)"
  using assms by (induction xs) auto

lemma totals_from_equation:
  assumes "\<forall>(d, s, ks)\<in>set (desc p t). V d = s + sum_list (map V ks)"
  shows "\<forall>(d, n)\<in>set (subtotals p t). V d = n"
  using assms
proof (induction p t rule: walk.induct)
  case (1 p)
  then show ?case by simp
next
  case (2 p fs ds)
  have sub: "\<forall>(d, n)\<in>set (subtotals (path_join p (fst e)) (snd e)). V d = n"
    if e: "e \<in> set ds" for e
  proof (rule "2.IH" [OF e])
    show "\<forall>(d, s, ks)\<in>set (desc (path_join p (fst e)) (snd e)). V d = s + sum_list (map V ks)"
      using "2.prems" e by auto
  qed
  have child: "V (path_join p (fst e)) = total_size (snd e)"
    if e: "e \<in> set ds" and o: "snd e \<noteq> Opaque" for e
  proof -
    from o obtain fs' ds' where d: "snd e = Dir fs' ds'" by (cases "snd e") auto
    then have "(path_join p (fst e), total_size (snd e)) \<in>
                 set (subtotals (path_join p (fst e)) (snd e))" by simp
    with sub [OF e] show ?thesis by fastforce
  qed
  have "V p = own_size fs + sum_list (map V (kids p ds))"
    using "2.prems" by simp
  also have "sum_list (map V (kids p ds)) = sum_list (map (\<lambda>e. total_size (snd e)) ds)"
    unfolding kids_def map_map
    by (rule sum_filter_map) (auto simp: child)
  finally have here: "V p = total_size (Dir fs ds)" by (simp add: own_size_def)
  show ?case using here sub by auto
qed


lemma under_refl: "under q q"
  by (simp add: under_def)

lemma under_child:
  assumes "under (p @ sep # n) c"
  shows "under p c" and "length p < length c"
proof -
  from assms obtain r where "c = p @ (sep # n @ r)" by (auto simp: under_def)
  then show "under p c" and "length p < length c" by (auto simp: under_def)
qed

lemma takeWhile_name:
  "sep \<notin> set n \<Longrightarrow> r = [] \<or> hd r = sep \<Longrightarrow> takeWhile (\<lambda>c. c \<noteq> sep) (n @ r) = n"
proof (induction n)
  case Nil
  then show ?case by (cases r) auto
next
  case (Cons a n)
  then show ?case by auto
qed

lemma under_disjoint:
  assumes "plain n" "plain n'" "under (p @ sep # n) c" "under (p @ sep # n') c"
  shows "n = n'"
proof -
  from assms(3) obtain r where r: "c = p @ sep # (n @ r)" "r = [] \<or> hd r = sep"
    by (auto simp: under_def)
  from assms(4) obtain r' where r': "c = p @ sep # (n' @ r')" "r' = [] \<or> hd r' = sep"
    by (auto simp: under_def)
  from r(1) r'(1) have "n @ r = n' @ r'" by simp
  then have "takeWhile (\<lambda>c. c \<noteq> sep) (n @ r) = takeWhile (\<lambda>c. c \<noteq> sep) (n' @ r')" by simp
  then show ?thesis
    using takeWhile_name [of n r] takeWhile_name [of n' r'] assms(1,2) r(2) r'(2)
    by (simp add: plain_def)
qed

lemma wf_tree_child:
  "wf_tree (Dir fs ds) \<Longrightarrow> e \<in> set ds \<Longrightarrow> plain (fst e) \<and> wf_tree (snd e)"
  by (simp add: list_all_iff)

lemma desc_under:
  "proper p \<Longrightarrow> wf_tree t \<Longrightarrow> d \<in> fst ` set (desc p t) \<Longrightarrow> under p d \<and> proper d"
proof (induction p t arbitrary: d rule: walk.induct)
  case (1 p)
  then show ?case by simp
next
  case (2 p fs ds)
  show ?case
  proof (cases "d = p")
    case True
    with "2.prems"(1) show ?thesis by (simp add: under_refl)
  next
    case False
    with "2.prems"(3) obtain e where e: "e \<in> set ds"
      and d: "d \<in> fst ` set (desc (path_join p (fst e)) (snd e))"
      by auto
    from wf_tree_child [OF "2.prems"(2) e] have pl: "plain (fst e)" and wf: "wf_tree (snd e)"
      by simp_all
    have j: "path_join p (fst e) = p @ sep # fst e" using "2.prems"(1) pl by (rule join_proper)
    have pc: "proper (path_join p (fst e))" unfolding j using "2.prems"(1) pl by (rule proper_child)
    from "2.IH" [OF e pc wf d] have "under (p @ sep # fst e) d" and "proper d"
      by (simp_all add: j)
    then show ?thesis using under_child(1) by blast
  qed
qed

lemma distinct_concat_map:
  assumes "distinct (map fst ds)"
    and "\<forall>e\<in>set ds. distinct (f e)"
    and "\<forall>e\<in>set ds. \<forall>e'\<in>set ds. fst e \<noteq> fst e' \<longrightarrow> set (f e) \<inter> set (f e') = {}"
  shows "distinct (concat (map f ds))"
  using assms
proof (induction ds)
  case Nil
  then show ?case by simp
next
  case (Cons e ds)
  have dis: "set (f e) \<inter> set (f e') = {}" if "e' \<in> set ds" for e'
  proof -
    from Cons.prems(1) that have "fst e \<noteq> fst e'" by auto
    with Cons.prems(3) that show ?thesis by simp
  qed
  have tail: "distinct (concat (map f ds))"
    using Cons.IH Cons.prems by simp
  have "set (f e) \<inter> set (concat (map f ds)) = {}"
    using dis by auto
  with tail Cons.prems(2) show ?case by simp
qed

lemma desc_distinct:
  "proper p \<Longrightarrow> wf_tree t \<Longrightarrow> distinct (map fst (desc p t))"
proof (induction p t rule: walk.induct)
  case (1 p)
  then show ?case by simp
next
  case (2 p fs ds)
  let ?f = "\<lambda>e. map fst (desc (path_join p (fst e)) (snd e))"
  have ch: "plain (fst e) \<and> wf_tree (snd e) \<and> path_join p (fst e) = p @ sep # fst e
            \<and> proper (path_join p (fst e))" if "e \<in> set ds" for e
    using wf_tree_child [OF "2.prems"(2) that] "2.prems"(1)
    by (simp add: join_proper proper_child)
  have un: "under (p @ sep # fst e) d" if "e \<in> set ds" "d \<in> set (?f e)" for e d
  proof -
    from ch [OF that(1)] have pc: "proper (path_join p (fst e))" and wf: "wf_tree (snd e)"
      and j: "path_join p (fst e) = p @ sep # fst e" by blast+
    from that(2) have "d \<in> fst ` set (desc (path_join p (fst e)) (snd e))" by simp
    from desc_under [OF pc wf this] show ?thesis by (simp add: j)
  qed
  have a: "distinct (map fst ds)" using "2.prems"(2) by simp
  have b: "\<forall>e\<in>set ds. distinct (?f e)"
  proof
    fix e assume e: "e \<in> set ds"
    from ch [OF e] have "proper (path_join p (fst e))" and "wf_tree (snd e)" by blast+
    with e show "distinct (?f e)" by (rule "2.IH")
  qed
  have c: "\<forall>e\<in>set ds. \<forall>e'\<in>set ds. fst e \<noteq> fst e' \<longrightarrow> set (?f e) \<inter> set (?f e') = {}"
  proof (intro ballI impI)
    fix e e' assume e: "e \<in> set ds" and e': "e' \<in> set ds" and ne: "fst e \<noteq> fst e'"
    show "set (?f e) \<inter> set (?f e') = {}"
    proof (rule ccontr)
      assume "set (?f e) \<inter> set (?f e') \<noteq> {}"
      then obtain d where "d \<in> set (?f e)" "d \<in> set (?f e')" by blast
      then have "under (p @ sep # fst e) d" "under (p @ sep # fst e') d"
        using un e e' by blast+
      with under_disjoint [of "fst e" "fst e'" p d] ch [OF e] ch [OF e'] ne
      show False by blast
    qed
  qed
  have rest: "distinct (concat (map ?f ds))" using a b c by (rule distinct_concat_map)
  have notp: "p \<notin> set (concat (map ?f ds))"
  proof
    assume "p \<in> set (concat (map ?f ds))"
    then obtain e where e: "e \<in> set ds" and "p \<in> set (?f e)" by auto
    then have "under (p @ sep # fst e) p" using un by blast
    from under_child(2) [OF this] show False by simp
  qed
  show ?case using rest notp by (simp add: map_concat o_def)
qed

lemma desc_parent:
  "c \<in> fst ` set (desc p t) \<Longrightarrow>
     c = p \<or> (\<exists>d s ks. (d, s, ks) \<in> set (desc p t) \<and> c \<in> set ks)"
proof (induction p t arbitrary: c rule: walk.induct)
  case (1 p)
  then show ?case by simp
next
  case (2 p fs ds)
  show ?case
  proof (cases "c = p")
    case True
    then show ?thesis by simp
  next
    case False
    with "2.prems" obtain e where e: "e \<in> set ds"
      and c: "c \<in> fst ` set (desc (path_join p (fst e)) (snd e))"
      by auto
    from "2.IH" [OF e c] show ?thesis
    proof
      assume ceq: "c = path_join p (fst e)"
      from c have "snd e \<noteq> Opaque" by auto
      with e ceq have "c \<in> set (kids p ds)" by (auto simp: kids_def)
      then show ?thesis by auto
    next
      assume "\<exists>d s ks. (d, s, ks) \<in> set (desc (path_join p (fst e)) (snd e)) \<and> c \<in> set ks"
      with e show ?thesis by auto
    qed
  qed
qed


lemma desc_head: "t \<noteq> Opaque \<Longrightarrow> p \<in> fst ` set (desc p t)"
  by (cases t) auto

lemma desc_sub:
  "e \<in> set ds \<Longrightarrow> set (desc (path_join p (fst e)) (snd e)) \<subseteq> set (desc p (Dir fs ds))"
  by auto

lemma desc_kids:
  assumes "proper p" "wf_tree t" "(d, s, ks) \<in> set (desc p t)"
  shows "distinct ks \<and>
         (\<forall>k\<in>set ks. dirname k = d \<and> depth k = Suc (depth d) \<and> k \<in> fst ` set (desc p t))"
  using assms
proof (induction p t arbitrary: d s ks rule: walk.induct)
  case (1 p)
  then show ?case by simp
next
  case (2 p fs ds)
  have ch: "plain (fst e)" "wf_tree (snd e)" "path_join p (fst e) = p @ sep # fst e"
           "proper (path_join p (fst e))" if "e \<in> set ds" for e
    using wf_tree_child [OF "2.prems"(2) that] "2.prems"(1)
    by (simp_all add: join_proper proper_child)
  show ?case
  proof (cases "(d, s, ks) = (p, own_size fs, kids p ds)")
    case True
    then have d: "d = p" and ks: "ks = kids p ds" by simp_all
    have "distinct (map fst (filter (\<lambda>e. snd e \<noteq> Opaque) ds))"
      using "2.prems"(2) by (simp add: distinct_map_filter)
    moreover have "inj_on (\<lambda>n. p @ sep # n) A" for A by (simp add: inj_on_def)
    ultimately have "distinct (map fst (filter (\<lambda>e. snd e \<noteq> Opaque) ds))
        \<and> inj_on (\<lambda>n. p @ sep # n) (set (map fst (filter (\<lambda>e. snd e \<noteq> Opaque) ds)))"
      by blast
    then have "distinct (map (\<lambda>n. p @ sep # n) (map fst (filter (\<lambda>e. snd e \<noteq> Opaque) ds)))"
      by (rule iffD2 [OF distinct_map])
    moreover have "kids p ds = map (\<lambda>n. p @ sep # n) (map fst (filter (\<lambda>e. snd e \<noteq> Opaque) ds))"
      using ch(3) by (simp add: kids_def)
    ultimately have dk: "distinct ks" by (simp add: ks)
    have "dirname k = d \<and> depth k = Suc (depth d) \<and> k \<in> fst ` set (desc p (Dir fs ds))"
      if "k \<in> set ks" for k
    proof -
      from that obtain e where e: "e \<in> set ds" and o: "snd e \<noteq> Opaque"
        and k: "k = path_join p (fst e)" by (auto simp: ks kids_def)
      have k': "k = p @ sep # fst e" using k ch(3) [OF e] by simp
      have "k \<in> fst ` set (desc (path_join p (fst e)) (snd e))"
        unfolding k using o by (rule desc_head)
      then have "k \<in> fst ` set (desc p (Dir fs ds))" using desc_sub [OF e, of p fs] by blast
      then show ?thesis
        using dirname_child [OF "2.prems"(1) ch(1) [OF e]] depth_child [OF ch(1) [OF e], of p]
        by (simp add: k' d)
    qed
    with dk show ?thesis by blast
  next
    case False
    with "2.prems"(3) obtain e where e: "e \<in> set ds"
      and m: "(d, s, ks) \<in> set (desc (path_join p (fst e)) (snd e))" by auto
    from "2.IH" [OF e ch(4) [OF e] ch(2) [OF e] m] desc_sub [OF e, of p fs]
    show ?thesis by blast
  qed
qed

lemma desc_longer:
  assumes "proper p" "wf_tree t" "d \<in> fst ` set (desc p t)"
  shows "length p \<le> length d"
proof -
  from desc_under [OF assms] have "under p d" by simp
  then show ?thesis by (auto simp: under_def)
qed


lemma sum_files_None: "sum_files fs s None = Some (s + own_size fs, None)"
  by (induction fs arbitrary: s) (simp_all add: own_size_def add.assoc)

lemma size_walk_None:
  "size_walk W fo sz None = Some (fo @ map fst W, sizes_of W sz, None)"
  by (induction W arbitrary: fo sz) (simp_all add: sizes_of_def sum_files_None)

lemma sizes_of_other: "d \<notin> fst ` set W \<Longrightarrow> sizes_of W sz d = sz d"
  by (induction W arbitrary: sz) (auto simp: sizes_of_def)

lemma sizes_of_in:
  "distinct (map fst W) \<Longrightarrow> (d, ds, fs) \<in> set W \<Longrightarrow> sizes_of W sz d = Some (own_size fs)"
proof (induction W arbitrary: sz)
  case Nil
  then show ?case by simp
next
  case (Cons t W)
  have step: "sizes_of (t # W) sz = sizes_of W (sz(fst t \<mapsto> own_size (snd (snd t))))"
    by (simp add: sizes_of_def)
  show ?case
  proof (cases "(d, ds, fs) = t")
    case True
    then have "d \<notin> fst ` set W" using Cons.prems(1) by force
    then show ?thesis using True by (auto simp: step sizes_of_other)
  next
    case False
    with Cons.prems have "(d, ds, fs) \<in> set W" "distinct (map fst W)" by auto
    then show ?thesis unfolding step by (intro Cons.IH)
  qed
qed

lemma dom_sizes_of: "dom (sizes_of W sz) = dom sz \<union> fst ` set W"
  by (induction W arbitrary: sz) (auto simp: sizes_of_def)

lemma walk_desc_own:
  "map (\<lambda>t. (fst t, own_size (snd (snd t)))) (walk p t) = map (\<lambda>x. (fst x, fst (snd x))) (desc p t)"
  by (induction p t rule: walk.induct) (simp_all add: map_concat o_def cong: map_cong)

lemma desc_in_walk:
  assumes "(d, s, ks) \<in> set (desc p t)"
  shows "\<exists>ds fs. (d, ds, fs) \<in> set (walk p t) \<and> own_size fs = s"
proof -
  from assms have "(d, s) \<in> set (map (\<lambda>x. (fst x, fst (snd x))) (desc p t))" by force
  then have "(d, s) \<in> set (map (\<lambda>t. (fst t, own_size (snd (snd t)))) (walk p t))"
    by (simp only: walk_desc_own)
  then obtain w where "w \<in> set (walk p t)" "fst w = d" "own_size (snd (snd w)) = s" by auto
  then show ?thesis by (metis prod.collapse)
qed

lemma finalized_append: "finalized (xs @ ys) = finalized xs @ finalized ys"
  by (induction xs rule: finalized.induct) simp_all

lemma finalized_rollup: "finalized (rollup i n xs t None) = xs"
  by (induction xs arbitrary: i t) simp_all

lemma on_events_rollup:
  "on_events (rollup i n xs t None @ es) tbl =
     on_events es (fold (\<lambda>x m. m(fst x \<mapsto> snd x)) (roll xs t) tbl)"
  by (induction xs arbitrary: i t tbl) simp_all

lemma fold_upd_map_of:
  "distinct (map fst ps) \<Longrightarrow>
     fold (\<lambda>x m. m(fst x \<mapsto> snd x)) ps m0 d =
       (case map_of ps d of None \<Rightarrow> m0 d | Some v \<Rightarrow> Some v)"
proof (induction ps arbitrary: m0)
  case Nil
  then show ?case by simp
next
  case (Cons x ps)
  then have "map_of ps (fst x) = None" by (simp add: map_of_eq_None_iff)
  with Cons show ?case by (cases x) (auto split: option.splits)
qed

lemma set_sorted_reverse [simp]: "set (sorted_reverse f xs) = set xs"
  by (simp add: sorted_reverse_def)

lemma distinct_sorted_reverse [simp]: "distinct (sorted_reverse f xs) = distinct xs"
  by (simp add: sorted_reverse_def)

lemma sorted_reverse_descending: "sorted (rev (map f (sorted_reverse f xs)))"
  by (simp add: sorted_reverse_def rev_map)

lemma no_child_after_sorted:
  assumes "sorted (rev (map depth S))"
    and "\<forall>c\<in>set S. dirname c \<in> set S \<longrightarrow> depth c = Suc (depth (dirname c))"
  shows "no_child_after S"
  using assms
proof (induction S)
  case Nil
  then show ?case by simp
next
  case (Cons x xs)
  from Cons.prems(1) have srt: "sorted (rev (map depth xs))"
    and le: "\<forall>c\<in>set xs. depth c \<le> depth x"
    by (auto simp: sorted_append)
  have "dirname c \<noteq> x" if c: "c \<in> set xs" for c
  proof
    assume "dirname c = x"
    with Cons.prems(2) c have "depth c = Suc (depth x)" by auto
    with le c show False by auto
  qed
  moreover have "no_child_after xs" using Cons.IH [OF srt] Cons.prems(2) by auto
  ultimately show ?case by (simp add: list_all_iff)
qed

lemma no_child_after_split:
  "no_child_after (pre @ d # post) \<Longrightarrow> \<forall>c\<in>set post. dirname c \<noteq> d"
  by (induction pre) (simp_all add: list_all_iff)


lemma run_None:
  "FolderSizeWorker_run root tree None =
     rollup 0 (length (walk root tree)) (processing_order root tree)
       (sizes_of (walk root tree) Map.empty) None @ [SizeDone]"
  by (simp add: FolderSizeWorker_run_def size_walk_None processing_order_def)

lemma subtotals_keys: "map fst (subtotals p t) = map fst (desc p t)"
  by (induction p t rule: walk.induct) (simp_all add: map_concat o_def cong: map_cong)

lemma set_processing_order: "set (processing_order root tree) = fst ` set (desc root tree)"
  by (simp add: processing_order_def walk_desc)

lemma root_parent_not_walked:
  assumes "proper root" "wf_tree tree"
  shows "dirname root \<notin> fst ` set (desc root tree)"
proof
  assume "dirname root \<in> fst ` set (desc root tree)"
  from desc_longer [OF assms this] length_dirname [OF assms(1)] show False by simp
qed

lemma walked_child_depth:
  assumes "proper root" "wf_tree tree" "c \<in> fst ` set (desc root tree)"
    "dirname c \<in> fst ` set (desc root tree)"
  shows "depth c = Suc (depth (dirname c))"
proof -
  from desc_parent [OF assms(3)] show ?thesis
  proof
    assume "c = root"
    with assms(4) root_parent_not_walked [OF assms(1,2)] show ?thesis by simp
  next
    assume "\<exists>d s ks. (d, s, ks) \<in> set (desc root tree) \<and> c \<in> set ks"
    then obtain d s ks where m: "(d, s, ks) \<in> set (desc root tree)" and ck: "c \<in> set ks"
      by blast
    from desc_kids [OF assms(1,2) m] ck show ?thesis by auto
  qed
qed

lemma order_facts:
  assumes "proper root" "wf_tree tree"
  shows "distinct (processing_order root tree)"
    and "\<forall>x\<in>set (processing_order root tree). dirname x \<noteq> x"
    and "set (processing_order root tree) \<subseteq> dom (sizes_of (walk root tree) Map.empty)"
    and "no_child_after (processing_order root tree)"
proof -
  show "distinct (processing_order root tree)"
    using desc_distinct [OF assms] by (simp add: processing_order_def walk_desc)
  show "\<forall>x\<in>set (processing_order root tree). dirname x \<noteq> x"
  proof
    fix x assume "x \<in> set (processing_order root tree)"
    then have "proper x" using desc_under [OF assms] by (simp add: set_processing_order)
    from length_dirname [OF this] show "dirname x \<noteq> x" by auto
  qed
  show "set (processing_order root tree) \<subseteq> dom (sizes_of (walk root tree) Map.empty)"
    by (simp add: dom_sizes_of processing_order_def)
  show "no_child_after (processing_order root tree)"
  proof (rule no_child_after_sorted)
    show "sorted (rev (map depth (processing_order root tree)))"
      unfolding processing_order_def by (rule sorted_reverse_descending)
    show "\<forall>c\<in>set (processing_order root tree).
            dirname c \<in> set (processing_order root tree) \<longrightarrow> depth c = Suc (depth (dirname c))"
      using walked_child_depth [OF assms] by (simp add: set_processing_order)
  qed
qed

lemma size_table_vals:
  assumes "proper root" "wf_tree tree"
  shows "size_table root tree None d = map_of (vals root tree) d"
proof -
  have "distinct (map fst (vals root tree))"
    using order_facts(1) [OF assms] by (simp add: vals_def)
  from fold_upd_map_of [OF this, of Map.empty d]
  show ?thesis
    by (simp add: size_table_def run_None on_events_rollup vals_def split: option.splits)
qed

lemma vals_equation:
  assumes "proper root" "wf_tree tree" "(d, s, ks) \<in> set (desc root tree)"
  shows "get0 (map_of (vals root tree)) d =
           s + sum_list (map (get0 (map_of (vals root tree))) ks)"
proof -
  let ?S = "processing_order root tree"
  let ?V = "get0 (map_of (vals root tree))"
  have dS: "d \<in> set ?S" using assms(3) by (force simp: set_processing_order)
  from roll_equation [OF order_facts [OF assms(1,2)] dS, of]
  have eq: "?V d = get0 (sizes_of (walk root tree) Map.empty) d
              + sum_list (map ?V (filter (\<lambda>c. dirname c = d) ?S))"
    by (simp add: vals_def)
  from desc_in_walk [OF assms(3)] obtain ds fs where
    w: "(d, ds, fs) \<in> set (walk root tree)" and o: "own_size fs = s" by blast
  have "distinct (map fst (walk root tree))"
    using desc_distinct [OF assms(1,2)] by (simp add: walk_desc)
  from sizes_of_in [OF this w, of Map.empty] o
  have own: "get0 (sizes_of (walk root tree) Map.empty) d = s" by (simp add: get0_def)
  have kd: "distinct ks" and kp: "\<forall>k\<in>set ks. dirname k = d \<and> k \<in> fst ` set (desc root tree)"
    using desc_kids [OF assms] by blast+
  have sets: "set (filter (\<lambda>c. dirname c = d) ?S) = set ks"
  proof (intro equalityI subsetI)
    fix c assume "c \<in> set (filter (\<lambda>c. dirname c = d) ?S)"
    then have c: "c \<in> fst ` set (desc root tree)" and dc: "dirname c = d"
      by (simp_all add: set_processing_order)
    from desc_parent [OF c] show "c \<in> set ks"
    proof
      assume "c = root"
      with dc dS root_parent_not_walked [OF assms(1,2)] show ?thesis
        by (simp add: set_processing_order)
    next
      assume "\<exists>d' s' ks'. (d', s', ks') \<in> set (desc root tree) \<and> c \<in> set ks'"
      then obtain d' s' ks' where m: "(d', s', ks') \<in> set (desc root tree)" and ck: "c \<in> set ks'"
        by blast
      from desc_kids [OF assms(1,2) m] ck have "dirname c = d'" by blast
      with dc m have "(d, s', ks') \<in> set (desc root tree)" by simp
      from eq_key_imp_eq_value [OF desc_distinct [OF assms(1,2)] this assms(3)]
      have "ks' = ks" by simp
      with ck show ?thesis by simp
    qed
  next
    fix k assume "k \<in> set ks"
    with kp show "k \<in> set (filter (\<lambda>c. dirname c = d) ?S)"
      by (simp add: set_processing_order)
  qed
  have "sum_list (map ?V (filter (\<lambda>c. dirname c = d) ?S)) = sum ?V (set (filter (\<lambda>c. dirname c = d) ?S))"
    using order_facts(1) [OF assms(1,2)] by (intro sum_list_distinct_conv_sum_set) simp
  also have "\<dots> = sum ?V (set ks)" by (simp only: sets)
  also have "\<dots> = sum_list (map ?V ks)"
    using kd by (rule sum_list_distinct_conv_sum_set [symmetric])
  finally show ?thesis using eq own by simp
qed

text \<open>
  The rollup is right for every scan whose root path is not empty and does not end with
  the separator: after a run that is not cancelled, the table maps every directory the
  walk entered to the bytes of all files under it; for the root this is the total of the
  tree.
\<close>

theorem rollup_totals:
  assumes "proper root" "wf_tree tree" "(d, n) \<in> set (subtotals root tree)"
  shows "size_table root tree None d = Some n"
proof -
  let ?V = "get0 (map_of (vals root tree))"
  have "\<forall>(d, s, ks)\<in>set (desc root tree). ?V d = s + sum_list (map ?V ks)"
    using vals_equation [OF assms(1,2)] by auto
  from totals_from_equation [OF this] assms(3) have v: "?V d = n" by auto
  have "d \<in> set (map fst (subtotals root tree))" using assms(3) by force
  then have "d \<in> set (processing_order root tree)"
    by (simp only: subtotals_keys set_processing_order list.set_map)
  from map_of_roll_Some [OF this] obtain m where
    m: "map_of (vals root tree) d = Some m" unfolding vals_def by blast
  with v have "m = n" by (simp add: get0_def)
  with m show ?thesis by (simp add: size_table_vals [OF assms(1,2)])
qed

text \<open>
  For such a root every subdirectory is finalized before its parent.
\<close>

theorem rollup_children_first:
  assumes "proper root" "wf_tree tree" "(d, s, ks) \<in> set (desc root tree)" "k \<in> set ks"
  shows "\<exists>a b c. finalized (FolderSizeWorker_run root tree None) = a @ k # b @ d # c"
proof -
  let ?S = "processing_order root tree"
  have fin: "finalized (FolderSizeWorker_run root tree None) = ?S"
    by (simp add: run_None finalized_append finalized_rollup)
  have dS: "d \<in> set ?S" using assms(3) by (force simp: set_processing_order)
  from desc_kids [OF assms(1,2,3)] assms(4)
  have dk: "dirname k = d" and kS: "k \<in> set ?S" by (auto simp: set_processing_order)
  from order_facts(2) [OF assms(1,2)] kS dk have ne: "k \<noteq> d" by auto
  from split_list [OF dS] obtain pre post where sp: "?S = pre @ d # post" by blast
  from order_facts(4) [OF assms(1,2)] have "\<forall>c\<in>set post. dirname c \<noteq> d"
    unfolding sp by (rule no_child_after_split)
  with dk have "k \<notin> set post" by auto
  with kS ne have "k \<in> set pre" unfolding sp by simp
  from split_list [OF this] obtain a b where "pre = a @ k # b" by blast
  with sp fin have "finalized (FolderSizeWorker_run root tree None) = a @ k # b @ d # post"
    by simp
  then show ?thesis by blast
qed

lemma member_le_sum: "k \<in> set ks \<Longrightarrow> (f k :: nat) \<le> sum_list (map f ks)"
  by (induction ks) auto

text \<open>
  For such a root the table is monotone from a subdirectory to its parent.
\<close>

theorem rollup_monotone:
  assumes "proper root" "wf_tree tree" "(d, s, ks) \<in> set (desc root tree)" "k \<in> set ks"
  shows "\<exists>m n. size_table root tree None k = Some m \<and> size_table root tree None d = Some n
           \<and> m \<le> n"
proof -
  let ?S = "processing_order root tree"
  let ?V = "get0 (map_of (vals root tree))"
  have dS: "d \<in> set ?S" using assms(3) by (force simp: set_processing_order)
  from desc_kids [OF assms(1,2,3)] assms(4)
  have kS: "k \<in> set ?S" by (auto simp: set_processing_order)
  from map_of_roll_Some [OF dS] obtain n where n: "map_of (vals root tree) d = Some n"
    unfolding vals_def by blast
  from map_of_roll_Some [OF kS] obtain m where m: "map_of (vals root tree) k = Some m"
    unfolding vals_def by blast
  have "?V k \<le> sum_list (map ?V ks)" using assms(4) by (rule member_le_sum)
  with vals_equation [OF assms(1,2,3)] have "?V k \<le> ?V d" by simp
  with m n have "m \<le> n" by (simp add: get0_def)
  with m n show ?thesis by (simp add: size_table_vals [OF assms(1,2)])
qed

end
